theory Spec2Isabelle
  imports
    Complex_Main
    "HOL-Library.Sublist"
    "HOL-Library.Char_ord"
    "HOL-Library.List_Lexorder"
    "HOL-Library.AList"
    "HOL-Library.Log_Nat"
begin

section \<open>JavaScript values used by the analytics pages\<close>

text \<open>
  The pages read \<^verbatim>\<open>public/data/orders.json\<close> and coerce every field they use.
  A string is the list of its code units, and the code units are the 256 values of
  \<^typ>\<open>char\<close> (U+0000 to U+00FF). A number is the value \<^verbatim>\<open>Number(...)\<close> yields: a
  double, held as the real number it denotes, an infinity, or NaN. Comparisons with NaN
  are false, as in JavaScript.
\<close>

datatype jsnum = NaN | NegInf | Fin real | PosInf

fun js_lt :: "jsnum \<Rightarrow> jsnum \<Rightarrow> bool" where
  "js_lt NaN _ = False"
| "js_lt _ NaN = False"
| "js_lt (Fin a) (Fin b) = (a < b)"
| "js_lt NegInf NegInf = False"
| "js_lt NegInf _ = True"
| "js_lt _ NegInf = False"
| "js_lt PosInf _ = False"
| "js_lt _ PosInf = True"

fun js_seq :: "jsnum \<Rightarrow> jsnum \<Rightarrow> bool" where
  "js_seq NaN _ = False"
| "js_seq _ NaN = False"
| "js_seq a b = (a = b)"

definition js_le :: "jsnum \<Rightarrow> jsnum \<Rightarrow> bool" where
  "js_le a b = (js_lt a b \<or> js_seq a b)"

definition js_ge :: "jsnum \<Rightarrow> jsnum \<Rightarrow> bool" where
  "js_ge a b = js_le b a"

subsection \<open>Arithmetic on doubles\<close>

text \<open>
  The result of an arithmetic operation is the exact result rounded to the nearest double,
  ties to the even significand. \<open>pow2 e\<close> is the power of two with exponent \<open>e\<close>;
  \<open>exponent2 x\<close> is, for a positive \<open>x\<close>, the \<open>e\<close> with \<open>pow2 e \<le> x < pow2 (e + 1)\<close>;
  \<open>round53 x\<close> is the multiple of \<open>pow2 (e - 52)\<close> nearest to \<open>x\<close>, that is \<open>x\<close> rounded
  to 53 significant bits. The exponent is not bounded: the quotients and products of
  counts that the pages compute are far from the overflow and underflow thresholds of a
  double.
\<close>

definition pow2 :: "int \<Rightarrow> real" where
  "pow2 e = (if 0 \<le> e then 2 ^ nat e else 1 / 2 ^ nat (- e))"

definition exponent2 :: "real \<Rightarrow> int" where
  "exponent2 x = (if 1 \<le> x then bitlen \<lfloor>x\<rfloor> - 1 else - bitlen (\<lceil>1 / x\<rceil> - 1))"

definition round_even :: "real \<Rightarrow> int" where
  "round_even q =
     (let f = \<lfloor>q\<rfloor>; d = q - of_int f in
      if d < 1 / 2 then f else if 1 / 2 < d then f + 1 else if even f then f else f + 1)"

definition round53 :: "real \<Rightarrow> real" where
  "round53 x =
     (if x = 0 then 0
      else let e = exponent2 \<bar>x\<bar> - 52 in of_int (round_even (x / pow2 e)) * pow2 e)"

text \<open>The relative error bound of one rounding.\<close>

definition ulp_rel :: real where
  "ulp_rel = 1 / 2 ^ 53"

text \<open>Division and multiplication of numbers (signed zeros are not distinguished).\<close>

fun js_sign_inf :: "bool \<Rightarrow> jsnum" where
  "js_sign_inf pos = (if pos then PosInf else NegInf)"

fun js_div :: "jsnum \<Rightarrow> jsnum \<Rightarrow> jsnum" where
  "js_div (Fin a) (Fin b) =
     (if b = 0 then (if a = 0 then NaN else js_sign_inf (0 < a)) else Fin (round53 (a / b)))"
| "js_div (Fin a) PosInf = Fin 0"
| "js_div (Fin a) NegInf = Fin 0"
| "js_div PosInf (Fin b) = js_sign_inf (0 \<le> b)"
| "js_div NegInf (Fin b) = js_sign_inf (b < 0)"
| "js_div _ _ = NaN"

fun js_mul :: "jsnum \<Rightarrow> jsnum \<Rightarrow> jsnum" where
  "js_mul (Fin a) (Fin b) = Fin (round53 (a * b))"
| "js_mul NaN _ = NaN"
| "js_mul _ NaN = NaN"
| "js_mul (Fin a) PosInf = (if a = 0 then NaN else js_sign_inf (0 < a))"
| "js_mul (Fin a) NegInf = (if a = 0 then NaN else js_sign_inf (a < 0))"
| "js_mul PosInf (Fin b) = (if b = 0 then NaN else js_sign_inf (0 < b))"
| "js_mul NegInf (Fin b) = (if b = 0 then NaN else js_sign_inf (b < 0))"
| "js_mul PosInf PosInf = PosInf"
| "js_mul NegInf NegInf = PosInf"
| "js_mul PosInf NegInf = NegInf"
| "js_mul NegInf PosInf = NegInf"

text \<open>A count as a number (a count is below \<open>2 ^ 53\<close>, where every integer is a double).\<close>

definition js_of_nat :: "nat \<Rightarrow> jsnum" where
  "js_of_nat n = Fin (real n)"

text \<open>\<^verbatim>\<open>Number(x ?? 0)\<close> on a field that holds a number or is absent.\<close>

definition Number_or0 :: "jsnum option \<Rightarrow> jsnum" where
  "Number_or0 x = (case x of None \<Rightarrow> Fin 0 | Some v \<Rightarrow> v)"

subsection \<open>Strings\<close>

text \<open>
  The characters that \<^verbatim>\<open>\s\<close> matches and \<^verbatim>\<open>trim()\<close> removes: the white space and line
  terminators of the language. Below U+0100 these are tab, line feed, vertical tab, form
  feed, carriage return, space and the no-break space U+00A0.
\<close>

definition is_space :: "char \<Rightarrow> bool" where
  "is_space c = (c = CHR '' '' \<or> c = CHR 0x09 \<or> c = CHR 0x0A \<or> c = CHR 0x0B
     \<or> c = CHR 0x0C \<or> c = CHR 0x0D \<or> c = CHR 0xA0)"

text \<open>
  \<^verbatim>\<open>toLowerCase\<close> maps \<^verbatim>\<open>A\<close> to \<^verbatim>\<open>Z\<close> and the upper-case letters U+00C0 to U+00DE
  (without the multiplication sign U+00D7) to the code unit 32 above. \<^verbatim>\<open>toUpperCase\<close>
  is only applied to the first letter of a canonical flavor name, an ASCII letter.
\<close>

definition upper_letters :: string where
  "upper_letters = ''ABCDEFGHIJKLMNOPQRSTUVWXYZ''"

definition lower_letters :: string where
  "lower_letters = ''abcdefghijklmnopqrstuvwxyz''"

definition lower_char :: "char \<Rightarrow> char" where
  "lower_char c =
     (case map_of (zip upper_letters lower_letters) c of
        Some d \<Rightarrow> d
      | None \<Rightarrow>
          if CHR 0xC0 \<le> c \<and> c \<le> CHR 0xDE \<and> c \<noteq> CHR 0xD7
          then char_of (of_char c + (32::nat)) else c)"

definition upper_char :: "char \<Rightarrow> char" where
  "upper_char c = (case map_of (zip lower_letters upper_letters) c of Some d \<Rightarrow> d | None \<Rightarrow> c)"

definition toLowerCase :: "string \<Rightarrow> string" where
  "toLowerCase s = map lower_char s"

definition trim :: "string \<Rightarrow> string" where
  "trim s = rev (dropWhile is_space (rev (dropWhile is_space s)))"

text \<open>\<^verbatim>\<open>s.includes(k)\<close>: \<open>k\<close> occurs in \<open>s\<close> as a contiguous block.\<close>

fun str_includes :: "string \<Rightarrow> string \<Rightarrow> bool" where
  "str_includes [] k = (k = [])"
| "str_includes (c # cs) k = (prefix k (c # cs) \<or> str_includes cs k)"

text \<open>
  \<^verbatim>\<open>name.split(/\s+/).filter(Boolean)\<close>: the maximal blocks of non-whitespace characters.
  \<open>words_acc w s\<close> scans \<open>s\<close> with the current block \<open>w\<close> held in reverse.
\<close>

fun words_acc :: "string \<Rightarrow> string \<Rightarrow> string list" where
  "words_acc w [] = (if w = [] then [] else [rev w])"
| "words_acc w (c # cs) =
     (if is_space c then (if w = [] then words_acc [] cs else rev w # words_acc [] cs)
      else words_acc (c # w) cs)"

definition split_words :: "string \<Rightarrow> string list" where
  "split_words s = words_acc [] s"

text \<open>\<^verbatim>\<open>parts.join(sep)\<close>.\<close>

fun join :: "string \<Rightarrow> string list \<Rightarrow> string" where
  "join sep [] = []"
| "join sep [x] = x"
| "join sep (x # y # ys) = x @ sep @ join sep (y # ys)"

text \<open>
  \<^verbatim>\<open>s.split(sep)\<close> for a non-empty separator string: \<open>split_acc sep w s\<close> scans \<open>s\<close> with
  the current part \<open>w\<close> held in reverse.
\<close>

function split_acc :: "string \<Rightarrow> string \<Rightarrow> string \<Rightarrow> string list" where
  "split_acc sep w s =
     (if sep \<noteq> [] \<and> prefix sep s then rev w # split_acc sep [] (drop (length sep) s)
      else (case s of [] \<Rightarrow> [rev w] | c # cs \<Rightarrow> split_acc sep (c # w) cs))"
  by pat_completeness auto
termination
  by (relation "measure (\<lambda>(sep, w, s). length s)") (auto simp: prefix_def)

definition js_split :: "string \<Rightarrow> string \<Rightarrow> string list" where
  "js_split s sep = split_acc sep [] s"

text \<open>\<^verbatim>\<open>String(n)\<close> for an integer.\<close>

definition digit_char :: "nat \<Rightarrow> char" where
  "digit_char d = ''0123456789'' ! d"

function string_of_nat :: "nat \<Rightarrow> string" where
  "string_of_nat n =
     (if n < 10 then [digit_char n] else string_of_nat (n div 10) @ [digit_char (n mod 10)])"
  by pat_completeness auto
termination
  by (relation "measure (\<lambda>n. n)") auto

definition String_int :: "int \<Rightarrow> string" where
  "String_int i = (if i < 0 then CHR ''-'' # string_of_nat (nat (- i)) else string_of_nat (nat i))"

text \<open>\<^verbatim>\<open>String(pid)\<close> where \<open>pid\<close> is an integer or null.\<close>

definition String_id :: "int option \<Rightarrow> string" where
  "String_id p = (case p of None \<Rightarrow> ''null'' | Some i \<Rightarrow> String_int i)"

section \<open>The dataset\<close>

text \<open>
  An order of \<^verbatim>\<open>orders.json\<close> and its line items, with the fields the pages read and
  the types the commerce API gives them. An absent or null field is \<open>None\<close>. Identifiers
  (\<^verbatim>\<open>id\<close>, \<^verbatim>\<open>product_id\<close>, \<^verbatim>\<open>variation_id\<close>) are integers; a numeric field
  (\<^verbatim>\<open>total\<close>, \<^verbatim>\<open>total_refunded\<close>, \<^verbatim>\<open>quantity\<close>, \<^verbatim>\<open>subtotal\<close>) holds the number
  that \<^verbatim>\<open>Number\<close> makes of it; names, statuses, dates and metadata keys and values are
  strings. A null element of an array behaves as the record whose fields are all absent,
  since every access goes through \<^verbatim>\<open>?.\<close>.
\<close>

record meta =
  meta_key :: "string option"
  meta_value :: "string option"

record line_item =
  li_id :: "int option"
  li_product_id :: "int option"
  li_variation_id :: "int option"
  li_name :: "string option"
  li_quantity :: "jsnum option"
  li_subtotal :: "jsnum option"
  li_total :: "jsnum option"
  li_meta_data :: "meta list"

record order =
  o_id :: "int option"
  o_status :: "string option"
  o_total :: "jsnum option"
  o_total_refunded :: "jsnum option"
  o_date_paid :: "string option"
  o_date_completed :: "string option"
  o_date_created :: "string option"
  o_date_created_gmt :: "string option"
  o_date_modified :: "string option"
  o_line_items :: "line_item list"

text \<open>\<^verbatim>\<open>a ?? b\<close> on optional values.\<close>

definition nullish :: "'a option \<Rightarrow> 'a option \<Rightarrow> 'a option" where
  "nullish a b = (case a of Some v \<Rightarrow> Some v | None \<Rightarrow> b)"

text \<open>\<^verbatim>\<open>String(x || "")\<close> and \<^verbatim>\<open>String(x ?? "")\<close> on a string or null.\<close>

definition String_or_empty :: "string option \<Rightarrow> string" where
  "String_or_empty x = (case x of None \<Rightarrow> [] | Some s \<Rightarrow> s)"

section \<open>The pairs page\<close>

subsection \<open>Eligibility\<close>

text \<open>
  \<^verbatim>\<open>toDateSafe\<close>: \<open>parse\<close> stands for \<^verbatim>\<open>new Date(s)\<close>, giving the time value in
  milliseconds or \<open>None\<close> for an invalid date.
\<close>

definition toDateSafe :: "(string \<Rightarrow> int option) \<Rightarrow> string option \<Rightarrow> int option" where
  "toDateSafe parse s =
     (case s of None \<Rightarrow> None | Some str \<Rightarrow> if str = [] then None else parse str)"

definition dateVal :: "order \<Rightarrow> string option" where
  "dateVal order =
     nullish (o_date_paid order) (nullish (o_date_completed order)
       (nullish (o_date_created order) (o_date_created_gmt order)))"

text \<open>
  \<^verbatim>\<open>isOrderEligible(order, fromIso, toIso)\<close>; the bounds are the time values of
  \<^verbatim>\<open>new Date(fromIso)\<close> and \<^verbatim>\<open>new Date(toIso)\<close>, \<open>None\<close> when the bound is not set.
\<close>

definition isOrderEligible ::
  "(string \<Rightarrow> int option) \<Rightarrow> order \<Rightarrow> int option \<Rightarrow> int option \<Rightarrow> bool" where
  "isOrderEligible parse order fromIso toIso =
     (let status = toLowerCase (String_or_empty (o_status order)) in
      if status \<noteq> ''completed'' then False
      else
        let total = Number_or0 (o_total order);
            refunded = Number_or0 (o_total_refunded order)
        in
        if js_seq total (Fin 0) \<or> js_ge refunded total then False
        else
          (case toDateSafe parse (dateVal order) of
             None \<Rightarrow> True
           | Some dt \<Rightarrow>
               if (case fromIso of Some f \<Rightarrow> dt < f | None \<Rightarrow> False) then False
               else if (case toIso of Some t \<Rightarrow> dt > t | None \<Rightarrow> False) then False
               else True))"

subsection \<open>Item identity per order\<close>

record item =
  item_key :: string
  item_label :: string

definition GUMMIES_KEYWORDS :: "string list" where
  "GUMMIES_KEYWORDS = [''gummi'', ''gummies'']"

text \<open>JavaScript \<^verbatim>\<open>Map\<close>s keep insertion order: association lists, updated in place.\<close>

definition Map_has :: "('k \<times> 'v) list \<Rightarrow> 'k \<Rightarrow> bool" where
  "Map_has m k = (map_of m k \<noteq> None)"

definition Map_set :: "('k \<times> 'v) list \<Rightarrow> 'k \<Rightarrow> 'v \<Rightarrow> ('k \<times> 'v) list" where
  "Map_set m k v = AList.update k v m"

text \<open>\<^verbatim>\<open>m.get(k) || 0\<close> on a map of counts.\<close>

definition Map_get0 :: "('k \<times> nat) list \<Rightarrow> 'k \<Rightarrow> nat" where
  "Map_get0 m k = (case map_of m k of None \<Rightarrow> 0 | Some c \<Rightarrow> c)"

text \<open>\<^verbatim>\<open>m.set(k, (m.get(k) || 0) + 1)\<close>.\<close>

definition Map_bump :: "('k \<times> nat) list \<Rightarrow> 'k \<Rightarrow> ('k \<times> nat) list" where
  "Map_bump m k = Map_set m k (Map_get0 m k + 1)"

definition lineTotal :: "line_item \<Rightarrow> jsnum" where
  "lineTotal li = Number_or0 (nullish (li_total li) (li_subtotal li))"

definition pid_of :: "line_item \<Rightarrow> int option" where
  "pid_of li = nullish (li_product_id li) (li_id li)"

definition vid_of :: "line_item \<Rightarrow> int" where
  "vid_of li = (case li_variation_id li of None \<Rightarrow> 0 | Some v \<Rightarrow> v)"

text \<open>The body of the loop over the raw line items in \<^verbatim>\<open>extractItemsForOrder\<close>.\<close>

definition extract_step :: "item list \<times> bool \<Rightarrow> line_item \<Rightarrow> item list \<times> bool" where
  "extract_step st li =
     (let items = fst st; sawGummiesLine = snd st;
          qty = Number_or0 (li_quantity li)
      in
      if js_le qty (Fin 0) then st
      else if js_le (lineTotal li) (Fin 0) then st
      else
        let name = trim (String_or_empty (li_name li));
            lower = toLowerCase name
        in
        if list_ex (\<lambda>k. str_includes lower k) GUMMIES_KEYWORDS then (items, True)
        else
          let pid = pid_of li;
              k = String_id pid @ ''::'' @ String_int (vid_of li);
              words = split_words name;
              short = join '' '' (take 2 words);
              lbl = (if short \<noteq> [] then short
                     else if name \<noteq> [] then name
                     else ''product-'' @ String_id pid)
          in (items @ [\<lparr>item_key = k, item_label = lbl\<rparr>], sawGummiesLine))"

definition uniq_step :: "(string \<times> item) list \<Rightarrow> item \<Rightarrow> (string \<times> item) list" where
  "uniq_step uniq it =
     (if \<not> Map_has uniq (item_key it) then Map_set uniq (item_key it) it else uniq)"

definition extractItemsForOrder :: "order \<Rightarrow> item list" where
  "extractItemsForOrder order =
     (let st = foldl extract_step ([], False) (o_line_items order);
          items = (if snd st
                   then fst st @ [\<lparr>item_key = ''gummies::consolidated'', item_label = ''Gummies''\<rparr>]
                   else fst st);
          uniq = foldl uniq_step [] items
      in map snd uniq)"

subsection \<open>Counting and metrics\<close>

record pairs_state =
  itemCounts :: "(string \<times> nat) list"
  pairCounts :: "(string \<times> nat) list"
  products :: "(string \<times> string) list"

text \<open>The loop over an order's items: the label map and the presence-based item counts.\<close>

definition item_step :: "pairs_state \<times> string list \<Rightarrow> item \<Rightarrow> pairs_state \<times> string list" where
  "item_step acc it =
     (let st = fst acc; seenKeys = snd acc;
          st1 = st\<lparr>products := Map_set (products st) (item_key it) (item_label it)\<rparr>
      in
      if item_key it \<notin> set seenKeys
      then (st1\<lparr>itemCounts := Map_bump (itemCounts st1) (item_key it)\<rparr>, seenKeys @ [item_key it])
      else (st1, seenKeys))"

text \<open>The two nested loops over \<open>i < j\<close> on the sorted keys of an order.\<close>

definition pair_loop :: "string list \<Rightarrow> (string \<times> nat) list \<Rightarrow> (string \<times> nat) list" where
  "pair_loop keys pc =
     foldl (\<lambda>pc i.
        foldl (\<lambda>pc j. Map_bump pc ((keys ! i) @ ''||'' @ (keys ! j))) pc [i + 1 ..< length keys])
       pc [0 ..< length keys]"

definition process_order :: "pairs_state \<Rightarrow> order \<Rightarrow> pairs_state" where
  "process_order st ord =
     (let items = map (\<lambda>it. \<lparr>item_key = item_key it, item_label = item_label it\<rparr>)
                    (extractItemsForOrder ord)
      in
      if length items < 1 then st
      else
        let st1 = fst (foldl item_step (st, []) items);
            keys = sort (map item_key items)
        in st1\<lparr>pairCounts := pair_loop keys (pairCounts st1)\<rparr>)"

definition supportPct_of :: "nat \<Rightarrow> nat \<Rightarrow> jsnum" where
  "supportPct_of cnt tot =
     (if tot > 0 then js_mul (js_div (js_of_nat cnt) (js_of_nat tot)) (Fin 100)
      else Fin 0)"

definition conf_of :: "nat \<Rightarrow> nat \<Rightarrow> jsnum" where
  "conf_of cnt cX =
     (if cX > 0 then js_div (js_of_nat cnt) (js_of_nat cX) else Fin 0)"

definition lift_of :: "nat \<Rightarrow> nat \<Rightarrow> nat \<Rightarrow> nat \<Rightarrow> jsnum" where
  "lift_of cnt tot cA cB =
     (if tot > 0 \<and> cA > 0 \<and> cB > 0
      then js_div (js_div (js_of_nat cnt) (js_of_nat tot))
             (js_mul (js_div (js_of_nat cA) (js_of_nat tot))
                     (js_div (js_of_nat cB) (js_of_nat tot)))
      else Fin 0)"

record pair_row =
  row_A :: "string option"
  row_B :: "string option"
  support :: nat
  supportPct :: jsnum
  countA :: nat
  countB :: nat
  confAtoB :: jsnum
  confBtoA :: jsnum
  lift :: jsnum

text \<open>
  \<^verbatim>\<open>const [A, B] = pairKey.split("||")\<close> takes the first two parts, each undefined when
  the split has no such part; \<^verbatim>\<open>itemCounts.get(undefined) || 0\<close> is 0.
\<close>

definition part :: "string list \<Rightarrow> nat \<Rightarrow> string option" where
  "part ps i = (if i < length ps then Some (ps ! i) else None)"

definition count_of :: "(string \<times> nat) list \<Rightarrow> string option \<Rightarrow> nat" where
  "count_of m k = (case k of None \<Rightarrow> 0 | Some a \<Rightarrow> Map_get0 m a)"

definition make_row :: "(string \<times> nat) list \<Rightarrow> nat \<Rightarrow> string \<times> nat \<Rightarrow> pair_row" where
  "make_row ic tot e =
     (let ps = js_split (fst e) ''||'';
          cnt = snd e;
          cA = count_of ic (part ps 0);
          cB = count_of ic (part ps 1)
      in \<lparr>row_A = part ps 0, row_B = part ps 1, support = cnt,
          supportPct = supportPct_of cnt tot, countA = cA, countB = cB,
          confAtoB = conf_of cnt cA, confBtoA = conf_of cnt cB,
          lift = lift_of cnt tot cA cB\<rparr>)"

record pairs_result =
  pairs :: "pair_row list"
  totalEligibleOrders :: nat

text \<open>
  The main computation of the pairs page, up to the final \<^verbatim>\<open>arr.sort\<close> by the chosen
  metric, which only reorders the rows.
\<close>

definition eligible_orders ::
  "(string \<Rightarrow> int option) \<Rightarrow> int option \<Rightarrow> int option \<Rightarrow> order list \<Rightarrow> order list" where
  "eligible_orders parse fromIso toIso orders =
     filter (\<lambda>ord. isOrderEligible parse ord fromIso toIso) orders"

definition empty_state :: pairs_state where
  "empty_state = \<lparr>itemCounts = [], pairCounts = [], products = []\<rparr>"

definition count_pairs ::
  "(string \<Rightarrow> int option) \<Rightarrow> int option \<Rightarrow> int option \<Rightarrow> order list \<Rightarrow> pairs_state" where
  "count_pairs parse fromIso toIso orders =
     foldl process_order empty_state (eligible_orders parse fromIso toIso orders)"

definition pairs_compute ::
  "(string \<Rightarrow> int option) \<Rightarrow> int option \<Rightarrow> int option \<Rightarrow> real \<Rightarrow> order list \<Rightarrow> pairs_result" where
  "pairs_compute parse fromIso toIso minCount orders =
     (let eligible = eligible_orders parse fromIso toIso orders;
          st = foldl process_order empty_state eligible;
          tot = length eligible;
          arr = map (make_row (itemCounts st) tot)
                  (filter (\<lambda>e. \<not> real (snd e) < minCount) (pairCounts st))
      in \<lparr>pairs = arr, totalEligibleOrders = tot\<rparr>)"

text \<open>A number that is neither NaN nor an infinity.\<close>

definition is_finite :: "jsnum \<Rightarrow> bool" where
  "is_finite x = (case x of Fin r \<Rightarrow> True | _ \<Rightarrow> False)"

section \<open>The bundle pages\<close>

text \<open>
  \<^verbatim>\<open>src/app/page.jsx\<close> holds two variants of the bundle page. Both collect an order's
  items with the same loop; the first identifies items by display name, the second by
  product id.
\<close>

subsection \<open>Names and flavors\<close>

definition GUMMIES_FLAVORS :: "string list" where
  "GUMMIES_FLAVORS =
     [''grape'', ''mango'', ''watermelon'', ''blueberry'', ''lemon'', ''pineapple'']"

definition is_word_char :: "char \<Rightarrow> bool" where
  "is_word_char c = (c \<in> set (upper_letters @ lower_letters @ ''0123456789_''))"

definition opt_word :: "char option \<Rightarrow> bool" where
  "opt_word c = (case c of None \<Rightarrow> False | Some x \<Rightarrow> is_word_char x)"

definition head_opt :: "string \<Rightarrow> char option" where
  "head_opt s = (case s of [] \<Rightarrow> None | c # cs \<Rightarrow> Some c)"

text \<open>
  The regular expression \<^verbatim>\<open>\bf\b\<close> with flag \<^verbatim>\<open>i\<close>, for a literal \<open>f\<close>:
  \<open>match_here f prev s\<close> says that it matches at the start of \<open>s\<close>, where \<open>prev\<close> is the
  character before \<open>s\<close>; a word boundary lies between a word character and a character
  that is none (or an end of the text).
\<close>

definition match_here :: "string \<Rightarrow> char option \<Rightarrow> string \<Rightarrow> bool" where
  "match_here f prev s =
     (prefix (toLowerCase f) (toLowerCase s)
      \<and> opt_word prev \<noteq> opt_word (head_opt s)
      \<and> opt_word (if f = [] then prev else Some (last (take (length f) s)))
          \<noteq> opt_word (head_opt (drop (length f) s)))"

fun scan_match :: "string \<Rightarrow> char option \<Rightarrow> string \<Rightarrow> bool" where
  "scan_match f prev [] = match_here f prev []"
| "scan_match f prev (c # cs) = (match_here f prev (c # cs) \<or> scan_match f (Some c) cs)"

definition flavor_regex_test :: "string \<Rightarrow> string \<Rightarrow> bool" where
  "flavor_regex_test f s = scan_match f None s"

definition capitalize :: "string \<Rightarrow> string" where
  "capitalize s = (case s of [] \<Rightarrow> [] | c # cs \<Rightarrow> upper_char c # cs)"

text \<open>A JavaScript \<^verbatim>\<open>Set\<close> of strings keeps insertion order.\<close>

definition Set_add :: "string list \<Rightarrow> string \<Rightarrow> string list" where
  "Set_add xs x = (if x \<in> set xs then xs else xs @ [x])"

text \<open>\<^verbatim>\<open>mv.split(/[,|\\/]+/)\<close>: the parts between maximal runs of separators.\<close>

definition is_sep :: "char \<Rightarrow> bool" where
  "is_sep c = (c = CHR '','' \<or> c = CHR ''|'' \<or> c = CHR 0x5C \<or> c = CHR ''/'')"

function split_runs_acc :: "string \<Rightarrow> string \<Rightarrow> string list" where
  "split_runs_acc w [] = [rev w]"
| "split_runs_acc w (c # cs) =
     (if is_sep c then rev w # split_runs_acc [] (dropWhile is_sep cs)
      else split_runs_acc (c # w) cs)"
  by pat_completeness auto
termination
  by (relation "measure (\<lambda>(w, s). length s)")
     (auto simp: length_dropWhile_le less_Suc_eq_le)

definition split_seps :: "string \<Rightarrow> string list" where
  "split_seps s = split_runs_acc [] s"

record norm_name =
  np_product :: string
  np_variant :: string

text \<open>\<^verbatim>\<open>normalizeProductName\<close> (its field \<^verbatim>\<open>full\<close> is never read).\<close>

definition normalizeProductName :: "string \<Rightarrow> norm_name" where
  "normalizeProductName rawName =
     (if rawName = [] then \<lparr>np_product = ''Unknown'', np_variant = []\<rparr>
      else
        let name = trim rawName;
            lower = toLowerCase name
        in
        if str_includes (toLowerCase lower) ''gummi''
        then \<lparr>np_product = ''Gummies'', np_variant = []\<rparr>
        else
          let words = split_words name;
              short = join '' '' (take 2 words)
          in \<lparr>np_product = (if short \<noteq> [] then short else name),
              np_variant = join '' '' (drop 2 words)\<rparr>)"

subsection \<open>Items of an order\<close>

record bitem =
  productId :: string
  displayName :: string
  fullName :: string
  variantId :: string
  variantName :: string
  flavors :: "string list option"

definition metaValues_of :: "line_item \<Rightarrow> string list" where
  "metaValues_of li = List.map_filter meta_value (li_meta_data li)"

definition VARIANT_KEYS :: "string list" where
  "VARIANT_KEYS = [''flavor'', ''flavour'', ''size'', ''color'', ''variant'', ''attribute'']"

text \<open>\<^verbatim>\<open>/flavor|flavour|size|color|variant|attribute/i.test(String(m?.key || ""))\<close>.\<close>

definition variant_key_test :: "meta \<Rightarrow> bool" where
  "variant_key_test m =
     list_ex (\<lambda>w. str_includes (toLowerCase (String_or_empty (meta_key m))) w) VARIANT_KEYS"

definition metaVariant_of :: "line_item \<Rightarrow> string" where
  "metaVariant_of li =
     (case List.find variant_key_test (li_meta_data li) of
        None \<Rightarrow> []
      | Some m \<Rightarrow> String_or_empty (meta_value m))"

text \<open>The loop over the canonical flavors on one text.\<close>

definition scan_flavors :: "string list \<Rightarrow> string \<Rightarrow> string list" where
  "scan_flavors fs text =
     foldl (\<lambda>fs f. if flavor_regex_test f text then Set_add fs (capitalize f) else fs)
       fs GUMMIES_FLAVORS"

text \<open>The fallback on the parts of the metadata values, when no flavor was found.\<close>

definition fallback_part :: "string list \<Rightarrow> string \<Rightarrow> string list" where
  "fallback_part fs p =
     (let r = foldl (\<lambda>acc f. if flavor_regex_test f p
                              then (Set_add (fst acc) (capitalize f), True) else acc)
                (fs, False) GUMMIES_FLAVORS
      in if \<not> snd r \<and> length p > 0 then Set_add (fst r) p else fst r)"

definition fallback_meta :: "string list \<Rightarrow> string \<Rightarrow> string list" where
  "fallback_meta fs mv =
     foldl fallback_part fs (filter (\<lambda>p. p \<noteq> []) (map trim (split_seps mv)))"

definition exploded_item :: "string \<Rightarrow> bitem" where
  "exploded_item fv =
     \<lparr>productId = ''gummies-'' @ fv, displayName = ''Gummies('' @ fv @ '')'',
      fullName = ''Gummies('' @ fv @ '')'', variantId = ''0'', variantName = [],
      flavors = None\<rparr>"

definition unspecified_item :: bitem where
  "unspecified_item =
     \<lparr>productId = ''gummies-unspecified'', displayName = ''Gummies(Unspecified)'',
      fullName = ''Gummies(Unspecified)'', variantId = ''0'', variantName = [],
      flavors = None\<rparr>"

definition consolidated_item :: "string list \<Rightarrow> bitem" where
  "consolidated_item fl =
     \<lparr>productId = ''gummies'', displayName = ''Gummies'', fullName = ''Gummies'',
      variantId = ''0'', variantName = [], flavors = Some fl\<rparr>"

definition plain_item :: "line_item \<Rightarrow> bitem" where
  "plain_item li =
     (let rawName = trim (String_or_empty (li_name li));
          norm = normalizeProductName rawName;
          metaVariant = metaVariant_of li
      in \<lparr>productId = String_id (pid_of li),
          displayName = np_product norm,
          fullName = (if rawName \<noteq> [] then rawName else np_product norm),
          variantId = String_int (vid_of li),
          variantName = trim (if metaVariant \<noteq> [] then metaVariant else np_variant norm),
          flavors = None\<rparr>)"

record collect_state =
  nonGummies :: "bitem list"
  gummiesFlavorsSet :: "string list"
  sawAnyGummiesLine :: bool

text \<open>The body of the loop over the raw line items in \<^verbatim>\<open>extractLineItems\<close>.\<close>

definition collect_step :: "bool \<Rightarrow> collect_state \<Rightarrow> line_item \<Rightarrow> collect_state" where
  "collect_step explodeGummies st li =
     (let rawName = trim (String_or_empty (li_name li));
          metaValues = metaValues_of li;
          norm = normalizeProductName rawName
      in
      if np_product norm = ''Gummies'' then
        let fs1 = scan_flavors (gummiesFlavorsSet st) rawName;
            fs2 = foldl scan_flavors fs1 metaValues;
            fs3 = (if length fs2 = 0 \<and> length metaValues > 0
                   then foldl fallback_meta fs2 metaValues else fs2);
            ng = (if explodeGummies
                  then (if length fs3 > 0 then nonGummies st @ map exploded_item fs3
                        else nonGummies st @ [unspecified_item])
                  else nonGummies st)
        in \<lparr>nonGummies = ng, gummiesFlavorsSet = fs3, sawAnyGummiesLine = True\<rparr>
      else st\<lparr>nonGummies := nonGummies st @ [plain_item li]\<rparr>)"

definition collect_items :: "bool \<Rightarrow> order \<Rightarrow> collect_state" where
  "collect_items explodeGummies order =
     foldl (collect_step explodeGummies)
       \<lparr>nonGummies = [], gummiesFlavorsSet = [], sawAnyGummiesLine = False\<rparr>
       (o_line_items order)"

text \<open>
  The two dedupe loops. \<open>keyf\<close> is the identity the variant dedupes by (display name in
  the first variant, product id in the second) and \<open>gk\<close> the value of it that marks the
  consolidated Gummies item, whose flavor lists are merged.
\<close>

definition merge_flavors :: "string list \<Rightarrow> string list \<Rightarrow> string list" where
  "merge_flavors a b = foldl Set_add [] (a @ b)"

definition seen_step ::
  "(bitem \<Rightarrow> string) \<Rightarrow> string \<Rightarrow> (string \<times> bitem) list \<Rightarrow> bitem \<Rightarrow> (string \<times> bitem) list" where
  "seen_step keyf gk seen it =
     (if \<not> Map_has seen (keyf it) then Map_set seen (keyf it) it
      else
        (case map_of seen (keyf it) of
           None \<Rightarrow> seen
         | Some existing \<Rightarrow>
             (case flavors existing of
                None \<Rightarrow> seen
              | Some ef \<Rightarrow>
                  (case flavors it of
                     None \<Rightarrow> seen
                   | Some nf \<Rightarrow>
                       if keyf existing = gk
                       then Map_set seen (keyf it)
                              (existing\<lparr>flavors := Some (merge_flavors ef nf)\<rparr>)
                       else seen))))"

definition seen2_step ::
  "(bitem \<Rightarrow> string) \<Rightarrow> (string \<times> bitem) list \<Rightarrow> bitem \<Rightarrow> (string \<times> bitem) list" where
  "seen2_step keyf seen2 it =
     (if \<not> Map_has seen2 (keyf it) then Map_set seen2 (keyf it) it else seen2)"

definition extract_by :: "(bitem \<Rightarrow> string) \<Rightarrow> string \<Rightarrow> bool \<Rightarrow> order \<Rightarrow> bitem list" where
  "extract_by keyf gk explodeGummies order =
     (let st = collect_items explodeGummies order in
      if \<not> explodeGummies then
        let items = nonGummies st @
              (if length (gummiesFlavorsSet st) > 0
               then [consolidated_item (gummiesFlavorsSet st)]
               else if sawAnyGummiesLine st then [consolidated_item [''Unspecified'']]
               else [])
        in map snd (foldl (seen_step keyf gk) [] items)
      else map snd (foldl (seen2_step keyf) [] (nonGummies st)))"

text \<open>\<^verbatim>\<open>extractLineItems\<close> of the first variant and of the second.\<close>

definition extractLineItems :: "bool \<Rightarrow> order \<Rightarrow> bitem list" where
  "extractLineItems = extract_by displayName ''Gummies''"

definition extractLineItems2 :: "bool \<Rightarrow> order \<Rightarrow> bitem list" where
  "extractLineItems2 = extract_by productId ''gummies''"

subsection \<open>Combinations\<close>

text \<open>
  \<^verbatim>\<open>combinations(arr, k)\<close> fills a buffer \<^verbatim>\<open>cur\<close> of \<open>k\<close> slots by backtracking and
  pushes a copy of it whenever all slots are set. The slots are written in index order,
  so the buffer is held as the list of the slots written so far: \<^verbatim>\<open>cur[i] = x\<close>
  overwrites slot \<open>i\<close> when it was written before and appends it otherwise. The state
  of \<^verbatim>\<open>bt\<close> is the buffer and the result list \<^verbatim>\<open>res\<close>.
\<close>

definition set_slot :: "'a list \<Rightarrow> nat \<Rightarrow> 'a \<Rightarrow> 'a list" where
  "set_slot cur i x = (if i < length cur then cur[i := x] else cur @ [x])"

function bt :: "'a list \<Rightarrow> nat \<Rightarrow> nat \<Rightarrow> nat \<Rightarrow> 'a list \<times> 'a list list \<Rightarrow> 'a list \<times> 'a list list" where
  "bt arr k i start st =
     (if i = k then (fst st, snd st @ [fst st])
      else foldl (\<lambda>st j. bt arr k (i + 1) (j + 1) (set_slot (fst st) i (arr ! j), snd st))
             st [start ..< length arr])"
  by pat_completeness auto
termination
  by (relation "measure (\<lambda>(arr, k, i, start, st). length arr - start)") auto

definition combinations :: "'a list \<Rightarrow> nat \<Rightarrow> 'a list list" where
  "combinations arr k = (if k > length arr then [] else snd (bt arr k 0 0 ([], [])))"

subsection \<open>Aggregation\<close>

text \<open>
  \<^verbatim>\<open>items.sort((a, b) => cmp(a, b))\<close> is a stable sort; \<open>cmp\<close> stands for the
  comparator, which for both variants is \<^verbatim>\<open>localeCompare\<close> on a string field.
\<close>

fun insert_by :: "('a \<Rightarrow> 'a \<Rightarrow> int) \<Rightarrow> 'a \<Rightarrow> 'a list \<Rightarrow> 'a list" where
  "insert_by c x [] = [x]"
| "insert_by c x (y # ys) = (if c x y \<le> 0 then x # y # ys else y # insert_by c x ys)"

definition sort_by :: "('a \<Rightarrow> 'a \<Rightarrow> int) \<Rightarrow> 'a list \<Rightarrow> 'a list" where
  "sort_by c xs = foldr (insert_by c) xs []"

definition variantPartString :: "(string \<Rightarrow> string \<Rightarrow> int) \<Rightarrow> bitem \<Rightarrow> string" where
  "variantPartString localeCompare it =
     (if displayName it = ''Gummies'' then
        (let fl = (case flavors it of None \<Rightarrow> [] | Some f \<Rightarrow> f) in
         if length fl = 0 then ''Gummies(Unspecified)''
         else ''Gummies('' @ join '','' (sort_by localeCompare fl) @ '')'')
      else if variantName it \<noteq> [] then displayName it @ ''('' @ variantName it @ '')''
      else displayName it)"

record sample_ref =
  s_id :: "int option"
  s_date :: "string option"

record bundle_rec =
  count :: nat
  variants :: "(string \<times> nat) list"
  sample :: "sample_ref list"

record bundle_rec2 = bundle_rec +
  label :: string

definition order_ref :: "order \<Rightarrow> sample_ref" where
  "order_ref order =
     \<lparr>s_id = o_id order,
      s_date = nullish (o_date_created order)
                 (nullish (o_date_created_gmt order) (o_date_modified order))\<rparr>"

text \<open>
  The update of one record: the count, the variant tally and the bounded sample. It is
  the same in both variants (the second has the extra field \<open>label\<close>).
\<close>

definition rec_bump ::
  "string \<Rightarrow> sample_ref \<Rightarrow> 'a bundle_rec_scheme \<Rightarrow> 'a bundle_rec_scheme" where
  "rec_bump variantKey ref r =
     (let r1 = r\<lparr>count := count r + 1\<rparr>;
          r2 = r1\<lparr>variants := Map_bump (variants r1) variantKey\<rparr>
      in if length (sample r2) < 6 then r2\<lparr>sample := sample r2 @ [ref]\<rparr> else r2)"

text \<open>
  \<^verbatim>\<open>if (!m.has(key)) m.set(key, init); const rec = m.get(key); ...\<close> on one of the
  maps.
\<close>

definition touch ::
  "'a bundle_rec_scheme \<Rightarrow> string \<Rightarrow> string \<Rightarrow> sample_ref \<Rightarrow>
   (string \<times> 'a bundle_rec_scheme) list \<Rightarrow> (string \<times> 'a bundle_rec_scheme) list" where
  "touch init bundleKey variantKey ref m =
     (let m1 = (if \<not> Map_has m bundleKey then Map_set m bundleKey init else m) in
      case map_of m1 bundleKey of
        None \<Rightarrow> m1
      | Some r \<Rightarrow> Map_set m1 bundleKey (rec_bump variantKey ref r))"

definition status_of :: "order \<Rightarrow> string" where
  "status_of order = toLowerCase (String_or_empty (o_status order))"

text \<open>The first variant: bundles keyed by display names.\<close>

definition bundleKey_of :: "bitem list \<Rightarrow> string" where
  "bundleKey_of comb = join '' | '' (map displayName comb)"

definition variantKey_of :: "(string \<Rightarrow> string \<Rightarrow> int) \<Rightarrow> bitem list \<Rightarrow> string" where
  "variantKey_of localeCompare comb = join '' | '' (map (variantPartString localeCompare) comb)"

definition comb_step ::
  "(string \<Rightarrow> string \<Rightarrow> int) \<Rightarrow> order \<Rightarrow> nat \<Rightarrow> (nat \<Rightarrow> (string \<times> bundle_rec) list) \<Rightarrow>
   bitem list \<Rightarrow> (nat \<Rightarrow> (string \<times> bundle_rec) list)" where
  "comb_step localeCompare order s maps comb =
     maps(s := touch \<lparr>count = 0, variants = [], sample = []\<rparr> (bundleKey_of comb)
                 (variantKey_of localeCompare comb) (order_ref order) (maps s))"

definition size_step ::
  "(string \<Rightarrow> string \<Rightarrow> int) \<Rightarrow> order \<Rightarrow> bitem list \<Rightarrow> (nat \<Rightarrow> (string \<times> bundle_rec) list) \<Rightarrow>
   nat \<Rightarrow> (nat \<Rightarrow> (string \<times> bundle_rec) list)" where
  "size_step localeCompare order items maps s =
     (if length items < s then maps
      else foldl (comb_step localeCompare order s) maps (combinations items s))"

definition eligible_status :: "order \<Rightarrow> bool" where
  "eligible_status order =
     (\<not> (status_of order \<noteq> ''completed'' \<and> status_of order \<noteq> ''processing''))"

definition sorted_items :: "(string \<Rightarrow> string \<Rightarrow> int) \<Rightarrow> bool \<Rightarrow> order \<Rightarrow> bitem list" where
  "sorted_items localeCompare explodeGummies order =
     sort_by (\<lambda>a b. localeCompare (displayName a) (displayName b))
       (extractLineItems explodeGummies order)"

definition order_step ::
  "(string \<Rightarrow> string \<Rightarrow> int) \<Rightarrow> bool \<Rightarrow> (nat \<Rightarrow> (string \<times> bundle_rec) list) \<Rightarrow> order \<Rightarrow>
   (nat \<Rightarrow> (string \<times> bundle_rec) list)" where
  "order_step localeCompare explodeGummies maps order =
     (if \<not> eligible_status order then maps
      else if length (extractLineItems explodeGummies order) < 1 then maps
      else
        let items = sorted_items localeCompare explodeGummies order
        in foldl (size_step localeCompare order items) maps [1 ..< 8])"

definition bundlesBySize ::
  "(string \<Rightarrow> string \<Rightarrow> int) \<Rightarrow> bool \<Rightarrow> order list \<Rightarrow> nat \<Rightarrow> (string \<times> bundle_rec) list" where
  "bundlesBySize localeCompare explodeGummies orders =
     foldl (order_step localeCompare explodeGummies) (\<lambda>s. []) orders"

text \<open>\<^verbatim>\<open>totalEligibleOrders\<close> of the first variant.\<close>

definition bundle_totalEligibleOrders :: "order list \<Rightarrow> nat" where
  "bundle_totalEligibleOrders orders =
     foldl (\<lambda>acc ord.
        acc + (if status_of ord = ''completed'' \<or> status_of ord = ''processing'' then 1 else 0))
       0 orders"

text \<open>The second variant: bundles keyed by product ids, orders also eligible when paid.\<close>

definition bundleIdKey_of :: "bitem list \<Rightarrow> string" where
  "bundleIdKey_of comb = join '' | '' (map productId comb)"

definition comb_step2 ::
  "(string \<Rightarrow> string \<Rightarrow> int) \<Rightarrow> order \<Rightarrow> nat \<Rightarrow> (nat \<Rightarrow> (string \<times> bundle_rec2) list) \<Rightarrow>
   bitem list \<Rightarrow> (nat \<Rightarrow> (string \<times> bundle_rec2) list)" where
  "comb_step2 localeCompare order s maps comb =
     maps(s := touch \<lparr>count = 0, variants = [], sample = [],
                     label = variantKey_of localeCompare comb\<rparr>
                 (bundleIdKey_of comb) (variantKey_of localeCompare comb) (order_ref order)
                 (maps s))"

definition size_step2 ::
  "(string \<Rightarrow> string \<Rightarrow> int) \<Rightarrow> order \<Rightarrow> bitem list \<Rightarrow> (nat \<Rightarrow> (string \<times> bundle_rec2) list) \<Rightarrow>
   nat \<Rightarrow> (nat \<Rightarrow> (string \<times> bundle_rec2) list)" where
  "size_step2 localeCompare order items maps s =
     (if length items < s then maps
      else foldl (comb_step2 localeCompare order s) maps (combinations items s))"

definition eligible_status2 :: "order \<Rightarrow> bool" where
  "eligible_status2 order =
     (\<not> (status_of order \<noteq> ''completed'' \<and> status_of order \<noteq> ''processing''
         \<and> status_of order \<noteq> ''paid''))"

definition sorted_items2 :: "(string \<Rightarrow> string \<Rightarrow> int) \<Rightarrow> bool \<Rightarrow> order \<Rightarrow> bitem list" where
  "sorted_items2 localeCompare explodeGummies order =
     sort_by (\<lambda>a b. localeCompare (productId a) (productId b))
       (extractLineItems2 explodeGummies order)"

definition order_step2 ::
  "(string \<Rightarrow> string \<Rightarrow> int) \<Rightarrow> bool \<Rightarrow> (nat \<Rightarrow> (string \<times> bundle_rec2) list) \<Rightarrow> order \<Rightarrow>
   (nat \<Rightarrow> (string \<times> bundle_rec2) list)" where
  "order_step2 localeCompare explodeGummies maps order =
     (if \<not> eligible_status2 order then maps
      else if length (extractLineItems2 explodeGummies order) < 1 then maps
      else
        let items = sorted_items2 localeCompare explodeGummies order
        in foldl (size_step2 localeCompare order items) maps [1 ..< 8])"

definition bundlesBySize2 ::
  "(string \<Rightarrow> string \<Rightarrow> int) \<Rightarrow> bool \<Rightarrow> order list \<Rightarrow> nat \<Rightarrow> (string \<times> bundle_rec2) list" where
  "bundlesBySize2 localeCompare explodeGummies orders =
     foldl (order_step2 localeCompare explodeGummies) (\<lambda>s. []) orders"

text \<open>\<^verbatim>\<open>totalEligibleOrders\<close> of the second variant.\<close>

definition bundle_totalEligibleOrders2 :: "order list \<Rightarrow> nat" where
  "bundle_totalEligibleOrders2 orders =
     foldl (\<lambda>acc ord.
        acc + (if status_of ord = ''completed'' \<or> status_of ord = ''processing''
                  \<or> status_of ord = ''paid'' then 1 else 0))
       0 orders"

text \<open>Reading a count or a sample off a map; an absent key has count 0 and no sample.\<close>

definition count_at :: "(string \<times> 'a bundle_rec_scheme) list \<Rightarrow> string \<Rightarrow> nat" where
  "count_at m k = (case map_of m k of None \<Rightarrow> 0 | Some r \<Rightarrow> count r)"


subsection \<open>What the enumeration should produce\<close>

text \<open>
  The subsequences of length \<open>k\<close> of a list, in lexicographic order of positions, and
  the per-order enumeration of the sizes 1 to \<open>K\<close> (the pages use \<open>K = 7\<close>).
\<close>

fun k_subseqs :: "'a list \<Rightarrow> nat \<Rightarrow> 'a list list" where
  "k_subseqs xs 0 = [[]]"
| "k_subseqs [] (Suc k) = []"
| "k_subseqs (x # xs) (Suc k) = map ((#) x) (k_subseqs xs k) @ k_subseqs xs (Suc k)"

definition itemsets_upto :: "nat \<Rightarrow> 'a list \<Rightarrow> 'a list list" where
  "itemsets_upto K items =
     concat (map (\<lambda>s. if length items < s then [] else combinations items s) [1 ..< Suc K])"

subsection \<open>Contributions to a bundle\<close>

text \<open>
  The itemsets an order contributes, in enumeration order, and the references of the
  orders that contributed to the bundle with key \<open>k\<close> among those of size \<open>s\<close>, one per
  contribution and in contribution order; for the first variant and for the second.
\<close>

definition order_combs :: "(string \<Rightarrow> string \<Rightarrow> int) \<Rightarrow> bool \<Rightarrow> order \<Rightarrow> bitem list list" where
  "order_combs localeCompare explodeGummies ord =
     (if eligible_status ord
      then itemsets_upto 7 (sorted_items localeCompare explodeGummies ord) else [])"

definition contributions ::
  "(string \<Rightarrow> string \<Rightarrow> int) \<Rightarrow> bool \<Rightarrow> order list \<Rightarrow> nat \<Rightarrow> string \<Rightarrow> sample_ref list" where
  "contributions localeCompare explodeGummies orders s k =
     concat (map (\<lambda>ord. map (\<lambda>comb. order_ref ord)
                    (filter (\<lambda>comb. length comb = s \<and> bundleKey_of comb = k)
                       (order_combs localeCompare explodeGummies ord))) orders)"

definition order_combs2 :: "(string \<Rightarrow> string \<Rightarrow> int) \<Rightarrow> bool \<Rightarrow> order \<Rightarrow> bitem list list" where
  "order_combs2 localeCompare explodeGummies ord =
     (if eligible_status2 ord
      then itemsets_upto 7 (sorted_items2 localeCompare explodeGummies ord) else [])"

definition contributions2 ::
  "(string \<Rightarrow> string \<Rightarrow> int) \<Rightarrow> bool \<Rightarrow> order list \<Rightarrow> nat \<Rightarrow> string \<Rightarrow> sample_ref list" where
  "contributions2 localeCompare explodeGummies orders s k =
     concat (map (\<lambda>ord. map (\<lambda>comb. order_ref ord)
                    (filter (\<lambda>comb. length comb = s \<and> bundleIdKey_of comb = k)
                       (order_combs2 localeCompare explodeGummies ord))) orders)"

text \<open>The update of the map of one size, as both variants perform it for a combination.\<close>

definition touch_at ::
  "nat \<Rightarrow> 'a bundle_rec_scheme \<Rightarrow> string \<Rightarrow> string \<Rightarrow> sample_ref \<Rightarrow>
   (nat \<Rightarrow> (string \<times> 'a bundle_rec_scheme) list) \<Rightarrow> (nat \<Rightarrow> (string \<times> 'a bundle_rec_scheme) list)" where
  "touch_at s init k vk ref maps = maps(s := touch init k vk ref (maps s))"

subsection \<open>Auxiliary notions\<close>

text \<open>A string without the character \<open>|\<close>, which both pages use in their separators.\<close>

definition bar_free :: "string \<Rightarrow> bool" where
  "bar_free s = (CHR ''|'' \<notin> set s)"

text \<open>
  An insertion-ordered map whose keys are distinct and whose every value is stored
  under its own key \<open>kf v\<close>.
\<close>

definition keyed :: "('a \<Rightarrow> 'k) \<Rightarrow> ('k \<times> 'a) list \<Rightarrow> bool" where
  "keyed kf S = (distinct (map fst S) \<and> list_all (\<lambda>e. kf (snd e) = fst e) S)"

subsection \<open>Pairs of keys\<close>

text \<open>
  The pairs \<open>(keys[i], keys[j])\<close> with \<open>i < j\<close>, in the order of the two nested loops, the
  pair keys made of them, and the invariant of the two count maps of the pairs page:
  the pair keys are distinct, each is made of two keys without \<open>|\<close>, and no pair count
  exceeds the counts of its two items.
\<close>

fun pairs_of :: "'a list \<Rightarrow> ('a \<times> 'a) list" where
  "pairs_of [] = []"
| "pairs_of (x # xs) = map (Pair x) xs @ pairs_of xs"

definition pair_keys :: "string list \<Rightarrow> string list" where
  "pair_keys ks = map (\<lambda>p. fst p @ ''||'' @ snd p) (pairs_of ks)"

definition pairs_inv :: "pairs_state \<Rightarrow> bool" where
  "pairs_inv st =
     (distinct (map fst (pairCounts st))
      \<and> list_all (\<lambda>e. \<exists>a b. bar_free a \<and> bar_free b \<and> fst e = a @ ''||'' @ b) (pairCounts st)
      \<and> (\<forall>a b. bar_free a \<and> bar_free b \<longrightarrow>
            Map_get0 (pairCounts st) (a @ ''||'' @ b) \<le> Map_get0 (itemCounts st) a
          \<and> Map_get0 (pairCounts st) (a @ ''||'' @ b) \<le> Map_get0 (itemCounts st) b))"

subsection \<open>The key a line item resolves to\<close>

text \<open>
  What one pass of the loop body of \<^verbatim>\<open>extractItemsForOrder\<close> makes of a line item on
  its own: no key when the line is skipped, the consolidated key for a gummies line, the
  key of the pushed item otherwise.
\<close>

definition resolved_key :: "line_item \<Rightarrow> string option" where
  "resolved_key li =
     (let r = extract_step ([], False) li in
      if snd r then Some ''gummies::consolidated''
      else (case fst r of [] \<Rightarrow> None | it # rest \<Rightarrow> Some (item_key it)))"

subsection \<open>Display names of line items\<close>

text \<open>
  The display name the bundle pages give a line item, the first two whitespace-delimited
  words of its name as \<^verbatim>\<open>normalizeProductName\<close> takes them, and the display names of the
  items made for single gummies flavors.
\<close>

definition line_display :: "line_item \<Rightarrow> string" where
  "line_display li = np_product (normalizeProductName (trim (String_or_empty (li_name li))))"

definition first_two_words :: "line_item \<Rightarrow> string list" where
  "first_two_words li = take 2 (split_words (trim (trim (String_or_empty (li_name li)))))"

definition is_gum :: "bitem \<Rightarrow> bool" where
  "is_gum it = prefix ''Gummies('' (displayName it)"

text \<open>\<^verbatim>\<open>Math.round\<close>, and \<^verbatim>\<open>percentOf(total, value)\<close> of the bundle pages on two counts.\<close>

fun js_round :: "jsnum \<Rightarrow> jsnum" where
  "js_round (Fin r) = Fin (of_int \<lfloor>r + 1 / 2\<rfloor>)"
| "js_round x = x"

definition percentOf :: "nat \<Rightarrow> nat \<Rightarrow> jsnum" where
  "percentOf tot v =
     (if tot = 0 then Fin 0
      else js_round (js_mul (js_div (js_of_nat v) (js_of_nat tot)) (Fin 100)))"

section \<open>Example data\<close>

text \<open>
  An order and a line item with every field absent, a line with a product id and a name
  (quantity 1, total 5), an order with an id, a status and lines (total 10), and a date
  parser that knows one date.
\<close>

definition order0 :: order where
  "order0 = \<lparr>o_id = None, o_status = None, o_total = None, o_total_refunded = None,
     o_date_paid = None, o_date_completed = None, o_date_created = None,
     o_date_created_gmt = None, o_date_modified = None, o_line_items = []\<rparr>"

definition line0 :: line_item where
  "line0 = \<lparr>li_id = None, li_product_id = None, li_variation_id = None, li_name = None,
     li_quantity = None, li_subtotal = None, li_total = None, li_meta_data = []\<rparr>"

definition line_of :: "int \<Rightarrow> string \<Rightarrow> line_item" where
  "line_of pid name =
     line0\<lparr>li_product_id := Some pid, li_name := Some name, li_quantity := Some (Fin 1),
           li_total := Some (Fin 5)\<rparr>"

definition order_of :: "int \<Rightarrow> string \<Rightarrow> line_item list \<Rightarrow> order" where
  "order_of i st ls =
     order0\<lparr>o_id := Some i, o_status := Some st, o_total := Some (Fin 10), o_line_items := ls\<rparr>"

definition parse_demo :: "string \<Rightarrow> int option" where
  "parse_demo s = (if s = ''2024-01-05'' then Some 150 else None)"

text \<open>
  A comparator standing for \<^verbatim>\<open>localeCompare\<close>: the order of the character codes. On
  the names used below it agrees with the collation order.
\<close>

definition code_compare :: "string \<Rightarrow> string \<Rightarrow> int" where
  "code_compare a b = (if a < b then - 1 else if a = b then 0 else 1)"


definition demo_orders :: "order list" where
  "demo_orders =
     [order_of 1 ''completed'' [line_of 11 ''Tea'', line_of 12 ''Coffee''],
      order_of 2 ''completed'' [line_of 11 ''Tea'']]"

definition bar_orders :: "order list" where
  "bar_orders =
     [order_of 1 ''completed'' [line_of 21 ''#1'', line_of 22 ''| B''],
      order_of 2 ''completed'' [line_of 23 ''#1 |'', line_of 24 ''B'']]"

definition refunded_order :: order where
  "refunded_order =
     (order_of 1 ''completed'' [line_of 11 ''Tea''])\<lparr>o_total_refunded := Some (Fin 10)\<rparr>"

definition zero_line :: line_item where
  "zero_line = (line_of 11 ''Tea'')\<lparr>li_quantity := Some (Fin 0)\<rparr>"

definition triple_order :: order where
  "triple_order =
     order_of 3 ''completed''
       [line_of 11 ''Tea'', line_of 11 ''Tea Large'', line_of 11 ''Tea'', line_of 12 ''Coffee'']"

definition tea_order :: order where
  "tea_order =
     order_of 4 ''completed''
       [line_of 11 ''Green Tea Large'', line_of 12 ''Green Tea Small'', line_of 13 ''Coffee'']"

text \<open>
  Five eligible orders, one with two products that occur nowhere else: the pair has
  support 1 and both items have count 1.
\<close>

definition lift_orders :: "order list" where
  "lift_orders =
     [order_of 1 ''completed'' [line_of 21 ''Apples'', line_of 22 ''Pears''],
      order_of 2 ''completed'' [line_of 23 ''Plums''],
      order_of 3 ''completed'' [line_of 23 ''Plums''],
      order_of 4 ''completed'' [line_of 23 ''Plums''],
      order_of 5 ''completed'' [line_of 23 ''Plums'']]"

section \<open>Properties\<close>

subsection \<open>Rounding\<close>

text \<open>
  \<open>exponent2\<close> is the binary exponent; rounding moves a number by at most the fraction
  \<open>ulp_rel\<close> of itself and gives 0 only for 0.
\<close>

lemma pow2_pos: "0 < pow2 e"
  by (simp add: pow2_def)

lemma pow2_powr: "pow2 e = 2 powr (real_of_int e)"
  by (auto simp: pow2_def powr_realpow [symmetric] powr_minus_divide)

lemma int_pow2_real:
  fixes m :: int
  shows "2 ^ k \<le> m \<Longrightarrow> (2::real) ^ k \<le> real_of_int m"
    and "m < 2 ^ k \<Longrightarrow> real_of_int m + 1 \<le> (2::real) ^ k"
proof -
  assume "2 ^ k \<le> m"
  hence "real_of_int (2 ^ k) \<le> real_of_int m" by (simp only: of_int_le_iff)
  thus "(2::real) ^ k \<le> real_of_int m" by simp
next
  assume "m < 2 ^ k"
  hence "m + 1 \<le> 2 ^ k" by simp
  hence "real_of_int (m + 1) \<le> real_of_int (2 ^ k)" by (simp only: of_int_le_iff)
  thus "real_of_int m + 1 \<le> (2::real) ^ k" by simp
qed

lemma exponent2_bounds:
  assumes "0 < x"
  shows "pow2 (exponent2 x) \<le> x \<and> x < pow2 (exponent2 x + 1)"
proof (cases "1 \<le> x")
  case True
  define m where "m = \<lfloor>x\<rfloor>"
  have m: "0 < m" using True by (simp add: m_def)
  have b: "2 ^ nat (bitlen m - 1) \<le> m" "m < 2 ^ nat (bitlen m)"
    using bitlen_bounds [OF m] by auto
  have k: "1 \<le> bitlen m" using m by (simp add: bitlen_alt_def)
  have e: "exponent2 x = bitlen m - 1" using True by (simp add: exponent2_def m_def)
  have mx: "real_of_int m \<le> x" "x < real_of_int m + 1" by (simp_all add: m_def)
  have p: "pow2 (exponent2 x) = 2 ^ nat (bitlen m - 1)"
    "pow2 (exponent2 x + 1) = 2 ^ nat (bitlen m)"
    using k by (simp_all add: e pow2_def)
  show ?thesis
    unfolding p using int_pow2_real(1) [OF b(1)] int_pow2_real(2) [OF b(2)] mx by linarith
next
  case False
  define y where "y = 1 / x"
  define n where "n = \<lceil>y\<rceil> - 1"
  have y: "1 < y" using False assms by (simp add: y_def)
  have n: "0 < n" using y by (simp add: n_def less_ceiling_iff)
  have b: "2 ^ nat (bitlen n - 1) \<le> n" "n < 2 ^ nat (bitlen n)"
    using bitlen_bounds [OF n] by auto
  have k: "1 \<le> bitlen n" using n by (simp add: bitlen_alt_def)
  have e: "exponent2 x = - bitlen n" using False by (simp add: exponent2_def n_def y_def)
  have ny: "real_of_int n < y" "y \<le> real_of_int n + 1"
    unfolding n_def by linarith+
  have "y \<le> 2 ^ nat (bitlen n)" using int_pow2_real(2) [OF b(2)] ny(2) by linarith
  hence lo: "1 / 2 ^ nat (bitlen n) \<le> x"
    using assms by (simp add: y_def field_simps)
  have "2 ^ nat (bitlen n - 1) < y" using int_pow2_real(1) [OF b(1)] ny(1) by linarith
  hence hi: "x < 1 / 2 ^ nat (bitlen n - 1)"
    using assms by (simp add: y_def field_simps)
  have p1: "pow2 (exponent2 x) = 1 / 2 ^ nat (bitlen n)"
    using k by (simp add: e pow2_def)
  have p2: "pow2 (exponent2 x + 1) = 1 / 2 ^ nat (bitlen n - 1)"
  proof (cases "bitlen n = 1")
    case True
    thus ?thesis by (simp add: e pow2_def)
  next
    case False
    hence "\<not> 0 \<le> - bitlen n + 1" using k by simp
    moreover have "nat (- (- bitlen n + 1)) = nat (bitlen n - 1)" by simp
    ultimately show ?thesis by (simp add: e pow2_def)
  qed
  show ?thesis unfolding p1 p2 using lo hi by simp
qed


lemma pow2_add: "pow2 (a + b) = pow2 a * pow2 b"
  by (simp add: pow2_powr powr_add)

lemma pow2_52: "pow2 (e - 52) * 2 ^ 52 = pow2 e"
proof -
  have "pow2 e = pow2 ((e - 52) + 52)" by simp
  also have "\<dots> = pow2 (e - 52) * pow2 52" by (rule pow2_add)
  finally show ?thesis by (simp add: pow2_def)
qed

lemma round_even_bounds:
  "real_of_int (round_even q) \<le> q + 1 / 2" "q - 1 / 2 \<le> real_of_int (round_even q)"
  unfolding round_even_def Let_def by (auto; linarith)+

lemma scaled_bounds:
  assumes "x \<noteq> 0"
  shows "2 ^ 52 \<le> \<bar>x / pow2 (exponent2 \<bar>x\<bar> - 52)\<bar>"
proof -
  let ?E = "exponent2 \<bar>x\<bar>"
  have b: "pow2 ?E \<le> \<bar>x\<bar>" using exponent2_bounds [of "\<bar>x\<bar>"] assms by simp
  have p: "0 < pow2 (?E - 52)" by (rule pow2_pos)
  have "2 ^ 52 * pow2 (?E - 52) \<le> \<bar>x\<bar>" using b pow2_52 [of ?E] by (simp add: mult.commute)
  hence "2 ^ 52 \<le> \<bar>x\<bar> / pow2 (?E - 52)" using p by (simp add: pos_le_divide_eq)
  thus ?thesis using p by simp
qed

lemma round53_eq_0_iff: "round53 x = 0 \<longleftrightarrow> x = 0"
proof
  assume r: "round53 x = 0"
  show "x = 0"
  proof (rule ccontr)
    assume x: "x \<noteq> 0"
    let ?q = "x / pow2 (exponent2 \<bar>x\<bar> - 52)"
    have "round_even ?q = 0" using r x pow2_pos [of "exponent2 \<bar>x\<bar> - 52"]
      by (simp add: round53_def Let_def)
    hence "\<bar>?q\<bar> \<le> 1 / 2" using round_even_bounds [of ?q] by simp
    moreover have "(1::real) / 2 < 2 ^ 52" by simp
    ultimately show False using scaled_bounds [OF x] by linarith
  qed
qed (simp add: round53_def)

lemma round53_error:
  "\<bar>round53 x - x\<bar> \<le> \<bar>x\<bar> / 2 ^ 53"
proof (cases "x = 0")
  case True
  thus ?thesis by (simp add: round53_def)
next
  case False
  let ?p = "pow2 (exponent2 \<bar>x\<bar> - 52)"
  let ?q = "x / ?p"
  have p: "0 < ?p" by (rule pow2_pos)
  have r: "round53 x = real_of_int (round_even ?q) * ?p" using False by (simp add: round53_def Let_def)
  have "\<bar>real_of_int (round_even ?q) - ?q\<bar> \<le> 1 / 2" using round_even_bounds [of ?q] by linarith
  hence "\<bar>real_of_int (round_even ?q) - ?q\<bar> * ?p \<le> 1 / 2 * ?p" using p by (simp only: mult_le_cancel_right_pos)
  moreover have "\<bar>real_of_int (round_even ?q) - ?q\<bar> * ?p = \<bar>round53 x - x\<bar>"
  proof -
    have "\<bar>real_of_int (round_even ?q) - ?q\<bar> * ?p = \<bar>(real_of_int (round_even ?q) - ?q) * ?p\<bar>"
      using p by (simp add: abs_mult)
    also have "(real_of_int (round_even ?q) - ?q) * ?p = round53 x - x"
      using p by (simp add: r algebra_simps)
    finally show ?thesis .
  qed
  ultimately have e: "\<bar>round53 x - x\<bar> \<le> ?p / 2" by simp
  have "2 ^ 52 \<le> \<bar>x\<bar> / ?p" using scaled_bounds [OF False] p by simp
  hence "2 ^ 52 * ?p \<le> \<bar>x\<bar>" using p by (simp add: pos_le_divide_eq)
  hence "?p / 2 \<le> \<bar>x\<bar> / 2 ^ 53" by simp
  thus ?thesis using e by linarith
qed


lemma round53_rel:
  assumes "0 \<le> x"
  shows "x * (1 - ulp_rel) \<le> round53 x" "round53 x \<le> x * (1 + ulp_rel)"
proof -
  have e: "\<bar>round53 x - x\<bar> \<le> x * ulp_rel"
    using round53_error [of x] assms by (simp add: ulp_rel_def)
  show "x * (1 - ulp_rel) \<le> round53 x" using e by (simp add: right_diff_distrib abs_le_iff)
  show "round53 x \<le> x * (1 + ulp_rel)" using e by (simp add: distrib_left abs_le_iff)
qed

lemma round53_pos: "0 < x \<Longrightarrow> 0 < round53 x"
proof -
  assume x: "0 < x"
  have "0 < x * (1 - ulp_rel)" using x by (simp add: ulp_rel_def)
  thus ?thesis using round53_rel(1) [of x] x by linarith
qed

lemma lift_error_consts:
  "(1 + ulp_rel) * (1 + ulp_rel) / ((1 - ulp_rel) * (1 - ulp_rel) * (1 - ulp_rel)) \<le> 1 + 1 / 2 ^ 50"
  "1 - 1 / 2 ^ 50 \<le> (1 - ulp_rel) * (1 - ulp_rel) / ((1 + ulp_rel) * (1 + ulp_rel) * (1 + ulp_rel))"
  by (simp_all add: ulp_rel_def)

lemma lift_error:
  assumes A: "0 < A" and B: "0 < B" and C: "0 \<le> C"
  shows "\<bar>round53 (round53 C / round53 (round53 A * round53 B)) - C / (A * B)\<bar>
         \<le> C / (A * B) / 2 ^ 50"
proof -
  define lo where "lo = 1 - ulp_rel"
  define hi where "hi = 1 + ulp_rel"
  have lo: "0 < lo" and hi: "0 < hi" by (simp_all add: lo_def hi_def ulp_rel_def)
  note rel = round53_rel [folded lo_def hi_def]
  let ?rA = "round53 A" and ?rB = "round53 B" and ?rC = "round53 C"
  let ?P = "?rA * ?rB"
  let ?rP = "round53 ?P"
  let ?Q = "?rC / ?rP"
  have rA: "A * lo \<le> ?rA" "?rA \<le> A * hi" using rel [of A] A by simp_all
  have rB: "B * lo \<le> ?rB" "?rB \<le> B * hi" using rel [of B] B by simp_all
  have rC: "C * lo \<le> ?rC" "?rC \<le> C * hi" using rel [of C] C by simp_all
  have pA: "0 < ?rA" and pB: "0 < ?rB" using A B by (simp_all add: round53_pos)
  have pP: "0 < ?P" using pA pB by simp
  have pC: "0 \<le> ?rC" using rC(1) C lo by (meson mult_nonneg_nonneg less_imp_le order_trans)
  have P1: "(A * lo) * (B * lo) \<le> ?P"
    using rA(1) rB(1) pA A B lo by (intro mult_mono) simp_all
  have P2: "?P \<le> (A * hi) * (B * hi)"
    using rA(2) rB(2) pA pB A B hi by (intro mult_mono) simp_all
  have rP: "?P * lo \<le> ?rP" "?rP \<le> ?P * hi" using rel [of ?P] pP by simp_all
  have pRP: "0 < ?rP" using pP by (rule round53_pos)
  have RP1: "(A * lo) * (B * lo) * lo \<le> ?rP"
  proof -
    have "(A * lo) * (B * lo) * lo \<le> ?P * lo" using P1 lo by (simp only: mult_le_cancel_right_pos)
    thus ?thesis using rP(1) by linarith
  qed
  have RP2: "?rP \<le> (A * hi) * (B * hi) * hi"
  proof -
    have "?P * hi \<le> (A * hi) * (B * hi) * hi" using P2 hi by (simp only: mult_le_cancel_right_pos)
    thus ?thesis using rP(2) by linarith
  qed
  have d1: "0 < (A * lo) * (B * lo) * lo" using A B lo by simp
  have d2: "0 < (A * hi) * (B * hi) * hi" using A B hi by simp
  have Q2: "?Q \<le> (C * hi) / ((A * lo) * (B * lo) * lo)"
    using rC(2) pC RP1 d1 by (intro frac_le) simp_all
  have Q1: "(C * lo) / ((A * hi) * (B * hi) * hi) \<le> ?Q"
    using rC(1) pC RP2 pRP by (intro frac_le) simp_all
  have pQ: "0 \<le> ?Q" using pC pRP by simp
  have rQ: "?Q * lo \<le> round53 ?Q" "round53 ?Q \<le> ?Q * hi" using rel [of ?Q] pQ by simp_all
  have U: "round53 ?Q \<le> (C * hi) / ((A * lo) * (B * lo) * lo) * hi"
  proof -
    have "?Q * hi \<le> (C * hi) / ((A * lo) * (B * lo) * lo) * hi"
      using Q2 hi by (simp only: mult_le_cancel_right_pos)
    thus ?thesis using rQ(2) by linarith
  qed
  have L: "(C * lo) / ((A * hi) * (B * hi) * hi) * lo \<le> round53 ?Q"
  proof -
    have "(C * lo) / ((A * hi) * (B * hi) * hi) * lo \<le> ?Q * lo"
      using Q1 lo by (simp only: mult_le_cancel_right_pos)
    thus ?thesis using rQ(1) by linarith
  qed
  let ?V = "C / (A * B)"
  have V: "0 \<le> ?V" using A B C by simp
  have Ueq: "(C * hi) / ((A * lo) * (B * lo) * lo) * hi = ?V * (hi * hi / (lo * lo * lo))"
    by (simp add: mult_ac)
  have Leq: "(C * lo) / ((A * hi) * (B * hi) * hi) * lo = ?V * (lo * lo / (hi * hi * hi))"
    by (simp add: mult_ac)
  have "?V * (hi * hi / (lo * lo * lo)) \<le> ?V * (1 + 1 / 2 ^ 50)"
    using lift_error_consts(1) V unfolding lo_def hi_def by (rule mult_left_mono)
  hence U': "round53 ?Q \<le> ?V + ?V / 2 ^ 50" using U unfolding Ueq by (simp add: algebra_simps)
  have "?V * (1 - 1 / 2 ^ 50) \<le> ?V * (lo * lo / (hi * hi * hi))"
    using lift_error_consts(2) V unfolding lo_def hi_def by (rule mult_left_mono)
  hence L': "?V - ?V / 2 ^ 50 \<le> round53 ?Q" using L unfolding Leq by (simp add: algebra_simps)
  show ?thesis using U' L' by (simp add: abs_le_iff)
qed

subsection \<open>Metrics of the pairs page\<close>

lemma supportPct_of_finite: "is_finite (supportPct_of cnt tot)"
  by (simp add: supportPct_of_def is_finite_def js_of_nat_def)

lemma conf_of_finite: "is_finite (conf_of cnt c)"
  by (simp add: conf_of_def is_finite_def js_of_nat_def)

lemma lift_of_finite: "is_finite (lift_of cnt tot cA cB)"
  by (simp add: lift_of_def is_finite_def js_of_nat_def round53_eq_0_iff)

lemma percentOf_finite: "is_finite (percentOf tot v)"
  by (simp add: percentOf_def is_finite_def js_of_nat_def)

text \<open>
  C3. Every row the pairs page builds from a pair count has finite metrics (no NaN, no
  infinity; the computation has no failing step): the support percentage is 0 when there
  is no eligible order, a confidence is 0 when its singleton count is 0, and the lift is 0
  when the number of eligible orders or either singleton count is 0. The percentage of
  the bundle pages is finite too, and 0 for a total of 0.
\<close>

theorem metrics_zero_division_safe:
  "(let r = make_row ic tot e in
      is_finite (supportPct r) \<and> is_finite (confAtoB r) \<and> is_finite (confBtoA r)
      \<and> is_finite (lift r)
      \<and> (tot = 0 \<longrightarrow> supportPct r = Fin 0 \<and> lift r = Fin 0)
      \<and> (countA r = 0 \<longrightarrow> confAtoB r = Fin 0 \<and> lift r = Fin 0)
      \<and> (countB r = 0 \<longrightarrow> confBtoA r = Fin 0 \<and> lift r = Fin 0))
   \<and> is_finite (percentOf tot v) \<and> percentOf 0 v = Fin 0"
  by (simp add: make_row_def Let_def supportPct_of_finite conf_of_finite lift_of_finite
        percentOf_finite)
     (simp add: supportPct_of_def conf_of_def lift_of_def percentOf_def)

theorem metrics_zero_division_safe_witness:
  "(let r = make_row [] 0 (''1::0||2::0'', 1) in
      countA r = 0 \<and> countB r = 0 \<and> supportPct r = Fin 0 \<and> confAtoB r = Fin 0
      \<and> confBtoA r = Fin 0 \<and> lift r = Fin 0)"
  using metrics_zero_division_safe [of "[]" 0 "(''1::0||2::0'', 1)"]
  by (simp add: Let_def make_row_def count_of_def Map_get0_def js_split_def part_def
      conf_of_def)

subsection \<open>Eligibility on the pairs page\<close>

lemma isOrderEligible_no_range:
  "isOrderEligible parse ord None None =
     (toLowerCase (String_or_empty (o_status ord)) = ''completed''
      \<and> \<not> js_seq (Number_or0 (o_total ord)) (Fin 0)
      \<and> \<not> js_ge (Number_or0 (o_total_refunded ord)) (Number_or0 (o_total ord)))"
  by (simp add: isOrderEligible_def Let_def split: option.splits)

text \<open>
  C7. The date compared with the range is the first non-null field among date_paid,
  date_completed, date_created, date_created_gmt. When it is absent or does not parse,
  the range plays no part in the verdict; when it parses to \<open>dt\<close>, the order is eligible
  exactly when it passes the other rules and \<open>dt\<close> lies within the configured bounds,
  both inclusive.
\<close>

theorem unknown_date_never_excluded:
  "dateVal ord =
     (case List.find (\<lambda>x. x \<noteq> None)
        [o_date_paid ord, o_date_completed ord, o_date_created ord, o_date_created_gmt ord]
      of None \<Rightarrow> None | Some x \<Rightarrow> x)
   \<and> (toDateSafe parse (dateVal ord) = None \<longrightarrow>
        isOrderEligible parse ord fromIso toIso = isOrderEligible parse ord None None)
   \<and> (\<forall>dt. toDateSafe parse (dateVal ord) = Some dt \<longrightarrow>
        isOrderEligible parse ord fromIso toIso =
          (isOrderEligible parse ord None None
           \<and> (case fromIso of None \<Rightarrow> True | Some f \<Rightarrow> f \<le> dt)
           \<and> (case toIso of None \<Rightarrow> True | Some t \<Rightarrow> dt \<le> t)))"
proof (intro conjI allI impI)
  show "dateVal ord =
     (case List.find (\<lambda>x. x \<noteq> None)
        [o_date_paid ord, o_date_completed ord, o_date_created ord, o_date_created_gmt ord]
      of None \<Rightarrow> None | Some x \<Rightarrow> x)"
    by (auto simp: dateVal_def nullish_def split: option.splits)
next
  assume "toDateSafe parse (dateVal ord) = None"
  then show "isOrderEligible parse ord fromIso toIso = isOrderEligible parse ord None None"
    by (simp add: isOrderEligible_def Let_def)
next
  fix dt assume "toDateSafe parse (dateVal ord) = Some dt"
  then show "isOrderEligible parse ord fromIso toIso =
          (isOrderEligible parse ord None None
           \<and> (case fromIso of None \<Rightarrow> True | Some f \<Rightarrow> f \<le> dt)
           \<and> (case toIso of None \<Rightarrow> True | Some t \<Rightarrow> dt \<le> t))"
    by (auto simp: isOrderEligible_def Let_def split: option.splits)
qed

theorem unknown_date_never_excluded_witness:
  "toDateSafe parse_demo
     (dateVal (order0\<lparr>o_status := Some ''completed'', o_total := Some (Fin 10)\<rparr>)) = None
   \<and> isOrderEligible parse_demo
        (order0\<lparr>o_status := Some ''completed'', o_total := Some (Fin 10)\<rparr>)
        (Some 100) (Some 200)
   \<and> toDateSafe parse_demo (dateVal (order0\<lparr>o_status := Some ''completed'',
        o_total := Some (Fin 10), o_date_created := Some ''2024-01-05''\<rparr>)) = Some 150
   \<and> isOrderEligible parse_demo (order0\<lparr>o_status := Some ''completed'',
        o_total := Some (Fin 10), o_date_created := Some ''2024-01-05''\<rparr>)
        (Some 150) (Some 150)
   \<and> \<not> isOrderEligible parse_demo (order0\<lparr>o_status := Some ''completed'',
        o_total := Some (Fin 10), o_date_created := Some ''2024-01-05''\<rparr>) (Some 151) None"
  using
    unknown_date_never_excluded
      [of "order0\<lparr>o_status := Some ''completed'', o_total := Some (Fin 10)\<rparr>"
          parse_demo "Some 100" "Some 200"]
    unknown_date_never_excluded
      [of "order0\<lparr>o_status := Some ''completed'', o_total := Some (Fin 10),
             o_date_created := Some ''2024-01-05''\<rparr>" parse_demo "Some 150" "Some 150"]
    unknown_date_never_excluded
      [of "order0\<lparr>o_status := Some ''completed'', o_total := Some (Fin 10),
             o_date_created := Some ''2024-01-05''\<rparr>" parse_demo "Some 151" "None"]
  by (simp add: order0_def dateVal_def nullish_def toDateSafe_def parse_demo_def
      isOrderEligible_no_range String_or_empty_def toLowerCase_def lower_char_def
      upper_letters_def lower_letters_def Number_or0_def js_ge_def js_le_def)

subsection \<open>The enumerator\<close>

declare bt.simps [simp del]

lemma set_slot_take: "i \<le> length cur \<Longrightarrow> take (Suc i) (set_slot cur i x) = take i cur @ [x]"
  by (auto simp: set_slot_def take_Suc_conv_app_nth)

lemma set_slot_length:
  "i \<le> length cur \<Longrightarrow> length cur \<le> k \<Longrightarrow> i < k \<Longrightarrow>
   Suc i \<le> length (set_slot cur i x) \<and> length (set_slot cur i x) \<le> k"
  by (auto simp: set_slot_def)

lemma k_subseqs_Nil: "k_subseqs [] d = (if d = 0 then [[]] else [])"
  by (cases d) auto

lemma bt_spec:
  "i \<le> k \<Longrightarrow> i \<le> length cur \<Longrightarrow> length cur \<le> k \<Longrightarrow>
   snd (bt arr k i start (cur, res)) =
     res @ map (\<lambda>ys. take i cur @ ys) (k_subseqs (drop start arr) (k - i))
   \<and> take i (fst (bt arr k i start (cur, res))) = take i cur
   \<and> i \<le> length (fst (bt arr k i start (cur, res)))
   \<and> length (fst (bt arr k i start (cur, res))) \<le> k"
proof (induction "k - i" arbitrary: i start cur res)
  case 0
  then have "i = k" by simp
  with 0 show ?case by (simp add: bt.simps)
next
  case (Suc d)
  then have ik: "i < k" and d: "d = k - Suc i" by auto
  note oIH = Suc.hyps(1)
  note oprems = Suc.prems
  let ?F = "\<lambda>st j. bt arr k (i + 1) (j + 1) (set_slot (fst st) i (arr ! j), snd st)"
  have loop: "i \<le> length cur \<Longrightarrow> length cur \<le> k \<Longrightarrow>
      snd (foldl ?F (cur, res) [start ..< length arr]) =
        res @ map (\<lambda>ys. take i cur @ ys) (k_subseqs (drop start arr) (Suc d))
      \<and> take i (fst (foldl ?F (cur, res) [start ..< length arr])) = take i cur
      \<and> i \<le> length (fst (foldl ?F (cur, res) [start ..< length arr]))
      \<and> length (fst (foldl ?F (cur, res) [start ..< length arr])) \<le> k" for start cur res
  proof (induction "length arr - start" arbitrary: start cur res)
    case 0
    then show ?case by simp
  next
    case (Suc m)
    then have lt: "start < length arr" by simp
    let ?cur1 = "set_slot cur i (arr ! start)"
    let ?st1 = "bt arr k (Suc i) (Suc start) (?cur1, res)"
    have l1: "Suc i \<le> length ?cur1" "length ?cur1 \<le> k"
      using set_slot_length [of i cur k] Suc.prems ik by auto
    have IH1: "snd ?st1 = res @ map (\<lambda>ys. take (Suc i) ?cur1 @ ys)
                (k_subseqs (drop (Suc start) arr) (k - Suc i))
       \<and> take (Suc i) (fst ?st1) = take (Suc i) ?cur1
       \<and> Suc i \<le> length (fst ?st1) \<and> length (fst ?st1) \<le> k"
      using Suc.prems(1) ik l1 d
      by (intro oIH) auto
    have t1: "take (Suc i) ?cur1 = take i cur @ [arr ! start]"
      using Suc.prems by (simp add: set_slot_take)
    have t2: "take i (fst ?st1) = take i cur"
    proof -
      have "take i (fst ?st1) = take i (take (Suc i) (fst ?st1))" by (simp add: min_def)
      also have "\<dots> = take i (take i cur @ [arr ! start])" using IH1 t1 by simp
      also have "\<dots> = take i cur" using Suc.prems by simp
      finally show ?thesis .
    qed
    have m: "m = length arr - Suc start" using Suc.hyps(2) by simp
    have IH2: "snd (foldl ?F (fst ?st1, snd ?st1) [Suc start ..< length arr]) =
        snd ?st1 @ map (\<lambda>ys. take i (fst ?st1) @ ys) (k_subseqs (drop (Suc start) arr) (Suc d))
      \<and> take i (fst (foldl ?F (fst ?st1, snd ?st1) [Suc start ..< length arr])) = take i (fst ?st1)
      \<and> i \<le> length (fst (foldl ?F (fst ?st1, snd ?st1) [Suc start ..< length arr]))
      \<and> length (fst (foldl ?F (fst ?st1, snd ?st1) [Suc start ..< length arr])) \<le> k"
      using IH1 by (intro Suc.hyps(1) [OF m]) auto
    have unf: "foldl ?F (cur, res) [start ..< length arr] =
               foldl ?F (fst ?st1, snd ?st1) [Suc start ..< length arr]"
      using lt by (simp add: upt_conv_Cons)
    have dr: "drop start arr = arr ! start # drop (Suc start) arr"
      using lt by (simp add: Cons_nth_drop_Suc)
    show ?case
      unfolding unf using IH2 IH1 t1 t2 d by (simp add: dr)
  qed
  have "bt arr k i start (cur, res) = foldl ?F (cur, res) [start ..< length arr]"
    using ik by (subst bt.simps) simp
  moreover have "k - i = Suc d" using Suc by simp
  ultimately show ?case using loop [where cur = cur and res = res and start = start] oprems by simp
qed

lemma combinations_eq: "combinations arr k = k_subseqs arr k"
proof (cases "k > length arr")
  case True
  have "length xs < k \<Longrightarrow> k_subseqs xs k = []" for xs :: "'a list" and k
    by (induction xs k rule: k_subseqs.induct) auto
  with True show ?thesis by (simp add: combinations_def)
next
  case False
  then show ?thesis using bt_spec [of 0 k "[]" arr 0 "[]"] by (simp add: combinations_def)
qed

lemma filter_Nil_subseqs: "filter (\<lambda>ys. ys = []) (subseqs xs) = [[]]"
  by (induction xs) (auto simp: Let_def filter_empty_conv)

lemma filter_length_Cons:
  "filter (\<lambda>ys. length ys = Suc k) (map ((#) x) xss) = map ((#) x) (filter (\<lambda>ys. length ys = k) xss)"
  by (induction xss) auto

lemma k_subseqs_filter: "k_subseqs xs k = filter (\<lambda>ys. length ys = k) (subseqs xs)"
proof (induction xs k rule: k_subseqs.induct)
  case (1 xs)
  then show ?case using filter_Nil_subseqs [of xs] by simp
next
  case (2 k)
  then show ?case by simp
next
  case (3 x xs k)
  then show ?case by (simp add: Let_def filter_length_Cons)
qed

lemma set_k_subseqs: "set (k_subseqs xs k) = {ys. subseq ys xs \<and> length ys = k}"
  by (auto simp: k_subseqs_filter)

lemma distinct_set_k_subseqs: "distinct xs \<Longrightarrow> distinct (map set (k_subseqs xs k))"
  unfolding k_subseqs_filter
  by (metis distinct_map_filter distinct_set_subseqs)



lemma k_subseqs_too_long: "length xs < k \<Longrightarrow> k_subseqs xs k = []"
  by (induction xs k rule: k_subseqs.induct) auto




subsection \<open>Counts and samples of the bundle pages\<close>

lemma map_of_touch:
  "map_of (touch init k vk ref m) =
     (map_of m)(k \<mapsto> rec_bump vk ref (case map_of m k of None \<Rightarrow> init | Some r \<Rightarrow> r))"
  by (auto simp: touch_def Map_has_def Map_set_def update_conv' Let_def split: option.splits)

lemma count_rec_bump: "count (rec_bump vk ref r) = count r + 1"
  by (simp add: rec_bump_def Let_def)


lemma count_at_touch:
  "count init = 0 \<Longrightarrow>
   count_at (touch init k vk ref m) k' = count_at m k' + (if k' = k then 1 else 0)"
  by (simp add: count_at_def map_of_touch count_rec_bump split: option.splits)


lemma touch_at_apply:
  "touch_at s init k vk ref maps s' = (if s' = s then touch init k vk ref (maps s) else maps s')"
  by (simp add: touch_at_def)

lemma fold_touch_count:
  assumes "\<And>e. count (ini e) = 0"
  shows "count_at (foldl (\<lambda>m e. touch_at (sz e) (ini e) (ky e) (vk e) (rf e) m) M E s) k
         = count_at (M s) k + length (filter (\<lambda>e. sz e = s \<and> ky e = k) E)"
proof (induction E arbitrary: M)
  case Nil
  then show ?case by simp
next
  case (Cons e E)
  show ?case
    unfolding foldl_Cons Cons.IH
    by (simp add: touch_at_apply count_at_touch [OF assms])
qed


lemma length_combinations_elem: "comb \<in> set (combinations items s) \<Longrightarrow> length comb = s"
  by (simp add: combinations_eq set_k_subseqs)

lemma foldl_sizes:
  "foldl (\<lambda>m s. if length items < s then m else foldl (F s) m (combinations items s)) M ss
   = foldl (\<lambda>m comb. F (length comb) m comb) M
       (concat (map (\<lambda>s. if length items < s then [] else combinations items s) ss))"
proof (induction ss arbitrary: M)
  case Nil
  then show ?case by simp
next
  case (Cons s ss)
  have "foldl (F s) M (combinations items s)
        = foldl (\<lambda>m comb. F (length comb) m comb) M (combinations items s)"
    by (rule foldl_cong) (auto simp: length_combinations_elem)
  then show ?case by (simp add: Cons.IH)
qed

lemma order_step_events:
  "order_step cmp ex M ord =
     foldl (\<lambda>m comb. comb_step cmp ord (length comb) m comb) M (order_combs cmp ex ord)"
proof -
  have empty: "itemsets_upto 7 ([] :: bitem list) = []"
    by (simp add: itemsets_upto_def)
  have srt: "length (sorted_items cmp ex ord) = 0 \<longleftrightarrow> length (extractLineItems ex ord) = 0"
  proof -
    have "length (sort_by c xs) = length xs" for c :: "bitem \<Rightarrow> bitem \<Rightarrow> int" and xs
    proof -
      have "length (insert_by c x ys) = Suc (length ys)" for x ys
        by (induction ys) auto
      then show ?thesis by (induction xs) (auto simp: sort_by_def)
    qed
    then show ?thesis by (simp add: sorted_items_def)
  qed
  have sz: "size_step cmp ord items = (\<lambda>m s. if length items < s then m
               else foldl (comb_step cmp ord s) m (combinations items s))" for items
    by (intro ext) (simp add: size_step_def)
  show ?thesis
  proof (cases "eligible_status ord \<and> \<not> length (extractLineItems ex ord) < 1")
    case True
    then show ?thesis
      unfolding order_step_def order_combs_def Let_def sz itemsets_upto_def
      using foldl_sizes [of "sorted_items cmp ex ord" "comb_step cmp ord" M "[1 ..< 8]"]
      by (simp del: upt_Suc add: numeral_eq_Suc)
  next
    case False
    then show ?thesis
      using srt by (auto simp: order_step_def order_combs_def empty)
  qed
qed

lemma order_step2_events:
  "order_step2 cmp ex M ord =
     foldl (\<lambda>m comb. comb_step2 cmp ord (length comb) m comb) M (order_combs2 cmp ex ord)"
proof -
  have empty: "itemsets_upto 7 ([] :: bitem list) = []"
    by (simp add: itemsets_upto_def)
  have srt: "length (sorted_items2 cmp ex ord) = 0 \<longleftrightarrow> length (extractLineItems2 ex ord) = 0"
  proof -
    have "length (sort_by c xs) = length xs" for c :: "bitem \<Rightarrow> bitem \<Rightarrow> int" and xs
    proof -
      have "length (insert_by c x ys) = Suc (length ys)" for x ys
        by (induction ys) auto
      then show ?thesis by (induction xs) (auto simp: sort_by_def)
    qed
    then show ?thesis by (simp add: sorted_items2_def)
  qed
  have sz: "size_step2 cmp ord items = (\<lambda>m s. if length items < s then m
               else foldl (comb_step2 cmp ord s) m (combinations items s))" for items
    by (intro ext) (simp add: size_step2_def)
  show ?thesis
  proof (cases "eligible_status2 ord \<and> \<not> length (extractLineItems2 ex ord) < 1")
    case True
    then show ?thesis
      unfolding order_step2_def order_combs2_def Let_def sz itemsets_upto_def
      using foldl_sizes [of "sorted_items2 cmp ex ord" "comb_step2 cmp ord" M "[1 ..< 8]"]
      by (simp del: upt_Suc add: numeral_eq_Suc)
  next
    case False
    then show ?thesis
      using srt by (auto simp: order_step2_def order_combs2_def empty)
  qed
qed

lemma foldl_orders_events:
  assumes "\<And>M ord. step M ord = foldl (\<lambda>m comb. f m (ord, comb)) M (combs ord)"
  shows "foldl step M orders = foldl f M (concat (map (\<lambda>ord. map (Pair ord) (combs ord)) orders))"
proof (induction orders arbitrary: M)
  case Nil
  then show ?case by simp
next
  case (Cons ord orders)
  show ?case
    by (simp only: foldl_Cons Cons.IH) (simp add: assms foldl_map)
qed

lemma contributions_of_events:
  "map (\<lambda>e. rf (fst e)) (filter (\<lambda>e. P (snd e)) (concat (map (\<lambda>ord. map (Pair ord) (combs ord)) orders)))
   = concat (map (\<lambda>ord. map (\<lambda>comb. rf ord) (filter P (combs ord))) orders)"
  by (induction orders) (auto simp: filter_map comp_def)

lemma bundlesBySize_events:
  "bundlesBySize cmp ex orders =
     foldl (\<lambda>m e. touch_at (length (snd e)) \<lparr>count = 0, variants = [], sample = []\<rparr>
                     (bundleKey_of (snd e)) (variantKey_of cmp (snd e)) (order_ref (fst e)) m)
       (\<lambda>s. []) (concat (map (\<lambda>ord. map (Pair ord) (order_combs cmp ex ord)) orders))"
  unfolding bundlesBySize_def
  by (rule foldl_orders_events) (simp add: order_step_events comb_step_def touch_at_def)

lemma bundlesBySize2_events:
  "bundlesBySize2 cmp ex orders =
     foldl (\<lambda>m e. touch_at (length (snd e))
                     \<lparr>count = 0, variants = [], sample = [], label = variantKey_of cmp (snd e)\<rparr>
                     (bundleIdKey_of (snd e)) (variantKey_of cmp (snd e)) (order_ref (fst e)) m)
       (\<lambda>s. []) (concat (map (\<lambda>ord. map (Pair ord) (order_combs2 cmp ex ord)) orders))"
  unfolding bundlesBySize2_def
  by (rule foldl_orders_events) (simp add: order_step2_events comb_step2_def touch_at_def)

lemma count_at_bundles:
  "count_at (bundlesBySize cmp ex orders s) k = length (contributions cmp ex orders s k)"
  unfolding bundlesBySize_events contributions_def
  by (subst fold_touch_count)
     (simp_all add: count_at_def
        contributions_of_events [of order_ref "\<lambda>c. length c = s \<and> bundleKey_of c = k", symmetric])


lemma count_at_bundles2:
  "count_at (bundlesBySize2 cmp ex orders s) k = length (contributions2 cmp ex orders s k)"
  unfolding bundlesBySize2_events contributions2_def
  by (subst fold_touch_count)
     (simp_all add: count_at_def
        contributions_of_events [of order_ref "\<lambda>c. length c = s \<and> bundleIdKey_of c = k", symmetric])







subsection \<open>Separators, deduplication and sorting\<close>

lemma split_at_char:
  "c \<notin> set a \<Longrightarrow> c \<notin> set a' \<Longrightarrow> a @ c # r = a' @ c # r' \<Longrightarrow> a = a' \<and> r = r'"
proof (induction a arbitrary: a')
  case Nil
  then show ?case by (cases a') auto
next
  case (Cons x a)
  then show ?case by (cases a') auto
qed

lemma join_Cons: "ys \<noteq> [] \<Longrightarrow> join sep (x # ys) = x @ sep @ join sep ys"
  by (cases ys) auto

lemma join_bar_inj:
  "xs \<noteq> [] \<Longrightarrow> ys \<noteq> [] \<Longrightarrow> list_all bar_free xs \<Longrightarrow> list_all bar_free ys \<Longrightarrow>
   join '' | '' xs = join '' | '' ys \<Longrightarrow> xs = ys"
proof (induction xs arbitrary: ys)
  case Nil
  then show ?case by simp
next
  case (Cons x xs)
  obtain y ys' where ys: "ys = y # ys'" using Cons.prems(2) by (cases ys) auto
  have bx: "CHR ''|'' \<notin> set (x @ '' '')" and "CHR ''|'' \<notin> set (y @ '' '')"
    using Cons.prems ys by (auto simp: bar_free_def)
  note by' = this(2)
  show ?case
  proof (cases "xs = []")
    case True
    show ?thesis
    proof (cases "ys' = []")
      case True
      with \<open>xs = []\<close> Cons.prems ys show ?thesis by simp
    next
      case False
      then have "x = y @ '' | '' @ join '' | '' ys'"
        using Cons.prems(5) ys \<open>xs = []\<close> by (simp add: join_Cons)
      then have "CHR ''|'' \<in> set x" by simp
      with Cons.prems(3) show ?thesis by (simp add: bar_free_def)
    qed
  next
    case False
    show ?thesis
    proof (cases "ys' = []")
      case True
      then have "y = x @ '' | '' @ join '' | '' xs"
        using Cons.prems(5) ys False by (simp add: join_Cons)
      then have "CHR ''|'' \<in> set y" by simp
      with Cons.prems(4) ys show ?thesis by (simp add: bar_free_def)
    next
      case ne: False
      have "(x @ '' '') @ CHR ''|'' # ('' '' @ join '' | '' xs)
            = (y @ '' '') @ CHR ''|'' # ('' '' @ join '' | '' ys')"
        using Cons.prems(5) ys False ne by (simp add: join_Cons)
      from split_at_char [OF bx by' this]
      have "x = y" "join '' | '' xs = join '' | '' ys'" by auto
      moreover have "xs = ys'"
        using Cons.IH [OF False ne _ _ \<open>join '' | '' xs = join '' | '' ys'\<close>] Cons.prems ys
        by simp
      ultimately show ?thesis using ys by simp
    qed
  qed
qed

lemma update_fresh: "k \<notin> fst ` set al \<Longrightarrow> AList.update k v al = al @ [(k, v)]"
  by (induction al) auto

lemma map_of_None_iff: "map_of al k = None \<longleftrightarrow> k \<notin> fst ` set al"
  by (simp add: map_of_eq_None_iff)

lemma keyed_distinct: "keyed kf S \<Longrightarrow> distinct (map kf (map snd S))"
proof -
  assume k: "keyed kf S"
  then have eq: "map (\<lambda>e. kf (snd e)) S = map fst S"
    by (intro map_cong) (auto simp: keyed_def list_all_iff)
  show ?thesis
    unfolding map_map comp_def eq using k by (simp add: keyed_def)
qed

lemma set_update_subset: "set (AList.update k v al) \<subseteq> insert (k, v) (set al)"
  by (induction al) auto

lemma keyed_update:
  "keyed kf S \<Longrightarrow> kf v = k \<Longrightarrow> keyed kf (AList.update k v S)"
  unfolding keyed_def list_all_iff
  using distinct_update [of S k v] set_update_subset [of k v S]
  by auto

lemma keyed_Nil: "keyed kf []"
  by (simp add: keyed_def)

lemma keyed_lookup:
  "keyed kf S \<Longrightarrow> filter (\<lambda>v. kf v = k) (map snd S) = (case map_of S k of None \<Rightarrow> [] | Some v \<Rightarrow> [v])"
proof (induction S)
  case Nil
  then show ?case by simp
next
  case (Cons e S)
  then have kS: "keyed kf S" and e: "kf (snd e) = fst e" and nin: "fst e \<notin> fst ` set S"
    by (auto simp: keyed_def)
  show ?case
  proof (cases "fst e = k")
    case True
    then have "map_of S k = None" using nin by (simp add: map_of_None_iff)
    then show ?thesis using Cons.IH [OF kS] True e by (cases e) auto
  next
    case False
    then show ?thesis using Cons.IH [OF kS] e by (cases e) auto
  qed
qed

lemma first_wins_fold:
  assumes step: "\<And>S it. step S it = (if \<not> Map_has S (kf it) then Map_set S (kf it) it else S)"
  shows "keyed kf S \<Longrightarrow> keyed kf (foldl step S xs)
     \<and> map_of (foldl step S xs) k =
        (case map_of S k of Some v \<Rightarrow> Some v | None \<Rightarrow> List.find (\<lambda>it. kf it = k) xs)"
proof (induction xs arbitrary: S)
  case Nil
  then show ?case by (simp split: option.splits)
next
  case (Cons x xs)
  have k1: "keyed kf (step S x)"
    using Cons.prems by (simp add: step Map_set_def keyed_update)
  have m1: "map_of (step S x) k =
      (case map_of S k of Some v \<Rightarrow> Some v | None \<Rightarrow> if kf x = k then Some x else None)"
    by (auto simp: step Map_has_def Map_set_def update_conv' split: option.splits)
  show ?case
    using Cons.IH [OF k1] by (auto simp: m1 split: option.splits)
qed

lemma keyed_map_of: "keyed kf S \<Longrightarrow> map_of S k = Some v \<Longrightarrow> kf v = k"
  by (auto simp: keyed_def list_all_iff dest!: map_of_SomeD)

lemma seen_fold:
  assumes fl: "\<And>it f. keyf (it\<lparr>flavors := f\<rparr>) = keyf it"
  shows "keyed keyf S \<Longrightarrow> keyed keyf (foldl (seen_step keyf gk) S xs)
     \<and> (k \<noteq> gk \<longrightarrow> map_of (foldl (seen_step keyf gk) S xs) k =
        (case map_of S k of Some v \<Rightarrow> Some v | None \<Rightarrow> List.find (\<lambda>it. keyf it = k) xs))"
proof (induction xs arbitrary: S)
  case Nil
  then show ?case by (simp split: option.splits)
next
  case (Cons x xs)
  have k1: "keyed keyf (seen_step keyf gk S x)"
    using Cons.prems keyed_map_of [OF Cons.prems]
    by (auto simp: seen_step_def Map_set_def Map_has_def fl intro!: keyed_update
        split: option.splits)
  have m1: "k \<noteq> gk \<Longrightarrow> map_of (seen_step keyf gk S x) k =
      (case map_of S k of Some v \<Rightarrow> Some v | None \<Rightarrow> if keyf x = k then Some x else None)"
    using keyed_map_of [OF Cons.prems]
    by (auto simp: seen_step_def Map_has_def Map_set_def update_conv' split: option.splits)
  show ?case
    using Cons.IH [OF k1] by (auto simp: m1 split: option.splits)
qed

lemma set_insert_by: "set (insert_by c x ys) = insert x (set ys)"
  by (induction ys) auto

lemma set_sort_by: "set (sort_by c xs) = set xs"
  by (induction xs) (auto simp: sort_by_def set_insert_by)

lemma distinct_map_insert_by:
  "distinct (map f (insert_by c x ys)) \<longleftrightarrow> f x \<notin> f ` set ys \<and> distinct (map f ys)"
  by (induction ys) (auto simp: set_insert_by)

lemma distinct_map_sort_by: "distinct (map f (sort_by c xs)) \<longleftrightarrow> distinct (map f xs)"
proof (induction xs)
  case Nil
  then show ?case by (simp add: sort_by_def)
next
  case (Cons x xs)
  have "sort_by c (x # xs) = insert_by c x (sort_by c xs)" by (simp add: sort_by_def)
  then show ?case using Cons by (simp add: distinct_map_insert_by set_sort_by)
qed

lemma extract_by_distinct:
  assumes fl: "\<And>it f. keyf (it\<lparr>flavors := f\<rparr>) = keyf it"
  shows "distinct (map keyf (extract_by keyf gk ex ord))"
proof (cases ex)
  case True
  have st: "\<And>S it. seen2_step keyf S it =
      (if \<not> Map_has S (keyf it) then Map_set S (keyf it) it else S)"
    by (simp add: seen2_step_def)
  have "keyed keyf (foldl (seen2_step keyf) [] xs)" for xs
    using first_wins_fold [OF st keyed_Nil] by blast
  then show ?thesis
    unfolding extract_by_def Let_def
    by (simp only: True not_True_eq_False if_False keyed_distinct)
next
  case False
  have "keyed keyf (foldl (seen_step keyf gk) [] xs)" for xs
    using seen_fold [OF fl keyed_Nil] by blast
  then show ?thesis
    unfolding extract_by_def Let_def
    by (simp only: False not_False_eq_True if_True keyed_distinct)
qed

lemma distinct_displayNames: "distinct (map displayName (extractLineItems ex ord))"
  unfolding extractLineItems_def by (rule extract_by_distinct) simp

lemma distinct_sorted_names: "distinct (map displayName (sorted_items cmp ex ord))"
  by (simp add: sorted_items_def distinct_map_sort_by distinct_displayNames)

lemma itemsets_upto_k_subseqs:
  "itemsets_upto K items = concat (map (k_subseqs items) [1 ..< Suc K])"
  unfolding itemsets_upto_def
  by (rule arg_cong [where f = concat], rule map_cong)
     (auto simp: combinations_eq k_subseqs_too_long)

lemma filter_size_k_subseqs:
  "filter (\<lambda>c. length c = s \<and> P c) (k_subseqs items s') =
     (if s' = s then filter P (k_subseqs items s) else [])"
  by (auto simp: filter_empty_conv set_k_subseqs intro!: filter_cong)

lemma filter_size_itemsets:
  "filter (\<lambda>c. length c = s \<and> P c) (itemsets_upto K items) =
     (if 1 \<le> s \<and> s \<le> K then filter P (k_subseqs items s) else [])"
  unfolding itemsets_upto_k_subseqs
proof (induction K)
  case 0
  then show ?case by simp
next
  case (Suc K)
  have "[1 ..< Suc (Suc K)] = [1 ..< Suc K] @ [Suc K]" by simp
  then show ?case
    using Suc by (auto simp: filter_size_k_subseqs simp del: upt_Suc)
qed

lemma subseq_map_ex: "subseq ns (map f xs) \<Longrightarrow> \<exists>c. subseq c xs \<and> map f c = ns"
proof (induction xs arbitrary: ns)
  case Nil
  then have "ns = []" using list_emb_Nil2 by fastforce
  then show ?case by simp
next
  case (Cons x xs)
  show ?case
  proof (cases ns)
    case Nil
    then show ?thesis by auto
  next
    case (Cons n ns')
    show ?thesis
    proof (cases "n = f x")
      case True
      then have "subseq ns' (map f xs)" using Cons.prems Cons by simp
      then obtain c where "subseq c xs" "map f c = ns'" using Cons.IH by blast
      then have "subseq (x # c) (x # xs) \<and> map f (x # c) = ns" using True Cons by simp
      then show ?thesis by blast
    next
      case False
      then have "subseq ns (map f xs)" using Cons.prems Cons by simp
      then obtain c where "subseq c xs" "map f c = ns" using Cons.IH by blast
      then have "subseq c (x # xs) \<and> map f c = ns" by (simp add: list_emb_Cons)
      then show ?thesis by blast
    qed
  qed
qed

lemma subseq_set_subset: "subseq c xs \<Longrightarrow> set c \<subseteq> set xs"
  by (induction rule: list_emb.induct) auto

lemma all_equal_short:
  "distinct xs \<Longrightarrow> (\<And>x y. x \<in> set xs \<Longrightarrow> y \<in> set xs \<Longrightarrow> x = y) \<Longrightarrow> length xs \<le> 1"
proof (cases xs)
  case Nil
  then show ?thesis by simp
next
  case (Cons a ys)
  assume d: "distinct xs" and e: "\<And>x y. x \<in> set xs \<Longrightarrow> y \<in> set xs \<Longrightarrow> x = y"
  show ?thesis
  proof (cases ys)
    case Nil
    with Cons show ?thesis by simp
  next
    case (Cons b zs)
    with \<open>xs = a # ys\<close> have "a \<in> set xs" "b \<in> set xs" "a \<noteq> b" using d by auto
    with e [of a b] show ?thesis by simp
  qed
qed

lemma matches_le_1:
  assumes "distinct (map D items)"
  shows "length (filter (\<lambda>c. map D c = ns) (k_subseqs items s)) \<le> 1"
proof (rule all_equal_short)
  have di: "distinct items" and inj: "inj_on D (set items)"
    using assms by (auto simp: distinct_map)
  have dk: "distinct (k_subseqs items s)"
    using distinct_set_k_subseqs [OF di, of s] by (simp add: distinct_map)
  then show "distinct (filter (\<lambda>c. map D c = ns) (k_subseqs items s))" by simp
  fix c c'
  assume "c \<in> set (filter (\<lambda>c. map D c = ns) (k_subseqs items s))"
    and "c' \<in> set (filter (\<lambda>c. map D c = ns) (k_subseqs items s))"
  then have m: "map D c = map D c'" and s: "subseq c items" "subseq c' items"
    by (simp_all add: set_k_subseqs)
  have "set c \<union> set c' \<subseteq> set items"
    using subseq_set_subset [OF s(1)] subseq_set_subset [OF s(2)] by simp
  then have "inj_on D (set c \<union> set c')"
    using inj inj_on_subset by blast
  with m show "c = c'" by (rule map_inj_on)
qed

lemma bundle_order_mono:
  assumes d: "distinct (map displayName items)"
    and bf: "list_all (\<lambda>it. bar_free (displayName it)) items"
    and nsb: "list_all bar_free ns" and sub: "subseq ms ns" and ne: "ms \<noteq> []"
  shows "length (filter (\<lambda>c. length c = length ns \<and> bundleKey_of c = join '' | '' ns)
            (itemsets_upto 7 items))
       \<le> length (filter (\<lambda>c. length c = length ms \<and> bundleKey_of c = join '' | '' ms)
            (itemsets_upto 7 items))"
proof (cases "1 \<le> length ns \<and> length ns \<le> 7")
  case False
  then have "filter (\<lambda>c. length c = length ns \<and> bundleKey_of c = join '' | '' ns)
            (itemsets_upto 7 items) = []"
    by (simp only: filter_size_itemsets if_False)
  then show ?thesis by simp
next
  case True
  have nne: "ns \<noteq> []" using True by auto
  let ?L = "filter (\<lambda>c. bundleKey_of c = join '' | '' ns) (k_subseqs items (length ns))"
  have L: "?L = filter (\<lambda>c. map displayName c = ns) (k_subseqs items (length ns))"
  proof (rule filter_cong [OF refl])
    fix c assume c: "c \<in> set (k_subseqs items (length ns))"
    then have cne: "map displayName c \<noteq> []" and cs: "subseq c items"
      using nne by (auto simp: set_k_subseqs)
    have "list_all bar_free (map displayName c)"
      using bf subseq_set_subset [OF cs] by (auto simp: list_all_iff)
    then have "join '' | '' (map displayName c) = join '' | '' ns \<Longrightarrow> map displayName c = ns"
      by (rule join_bar_inj [OF cne nne _ nsb])
    then show "(bundleKey_of c = join '' | '' ns) = (map displayName c = ns)"
      unfolding bundleKey_of_def by blast
  qed
  have le1: "length ?L \<le> 1" unfolding L using d by (rule matches_le_1)
  have mlen: "1 \<le> length ms \<and> length ms \<le> 7"
    using ne sub True list_emb_length [of "(=)" ms ns] by (cases ms) auto
  have lhs: "filter (\<lambda>c. length c = length ns \<and> bundleKey_of c = join '' | '' ns)
            (itemsets_upto 7 items) = ?L"
    using True by (simp add: filter_size_itemsets)
  have rhs: "filter (\<lambda>c. length c = length ms \<and> bundleKey_of c = join '' | '' ms)
            (itemsets_upto 7 items)
        = filter (\<lambda>c. bundleKey_of c = join '' | '' ms) (k_subseqs items (length ms))"
    using mlen by (simp add: filter_size_itemsets)
  show ?thesis
  proof (cases "?L = []")
    case True
    then show ?thesis unfolding lhs by simp
  next
    case False
    then obtain c where "c \<in> set ?L" by (cases ?L) auto
    then have "subseq c items" "map displayName c = ns"
      unfolding L by (auto simp: set_k_subseqs)
    then have "subseq ns (map displayName items)" using subseq_map by blast
    then have "subseq ms (map displayName items)" using sub subseq_order.order_trans by blast
    then obtain c' where c': "subseq c' items" "map displayName c' = ms"
      using subseq_map_ex by blast
    then have "c' \<in> set (filter (\<lambda>c. bundleKey_of c = join '' | '' ms)
                 (k_subseqs items (length ms)))"
      by (auto simp: set_k_subseqs bundleKey_of_def)
    then have "0 < length (filter (\<lambda>c. bundleKey_of c = join '' | '' ms)
                 (k_subseqs items (length ms)))"
      by (rule length_pos_if_in_set)
    then show ?thesis
      unfolding lhs rhs using le1 by linarith
  qed
qed

lemma bundle_counts_mono:
  assumes H: "\<forall>ord\<in>set orders. \<forall>it\<in>set (extractLineItems ex ord). bar_free (displayName it)"
    and nsb: "list_all bar_free ns" and sub: "subseq ms ns" and ne: "ms \<noteq> []"
  shows "count_at (bundlesBySize cmp ex orders (length ns)) (join '' | '' ns)
       \<le> count_at (bundlesBySize cmp ex orders (length ms)) (join '' | '' ms)"
  unfolding count_at_bundles
  using H
proof (induction orders)
  case Nil
  then show ?case by (simp add: contributions_def)
next
  case (Cons ord orders)
  have bf: "list_all (\<lambda>it. bar_free (displayName it)) (sorted_items cmp ex ord)"
    using Cons.prems by (simp add: list_all_iff sorted_items_def set_sort_by)
  have one: "length (filter (\<lambda>c. length c = length ns \<and> bundleKey_of c = join '' | '' ns)
            (order_combs cmp ex ord))
       \<le> length (filter (\<lambda>c. length c = length ms \<and> bundleKey_of c = join '' | '' ms)
            (order_combs cmp ex ord))"
    using bundle_order_mono [OF distinct_sorted_names bf nsb sub ne]
    by (simp add: order_combs_def)
  have rest: "length (contributions cmp ex orders (length ns) (join '' | '' ns))
       \<le> length (contributions cmp ex orders (length ms) (join '' | '' ms))"
    using Cons by simp
  have split: "contributions cmp ex (ord # orders) s k =
      map (\<lambda>comb. order_ref ord)
        (filter (\<lambda>c. length c = s \<and> bundleKey_of c = k) (order_combs cmp ex ord))
      @ contributions cmp ex orders s k" for s k
    by (simp add: contributions_def)
  show ?case unfolding split using one rest by simp
qed

subsection \<open>Counts of the pairs page\<close>

declare string_of_nat.simps [simp del]

declare split_acc.simps [simp del]

lemma digit_char_bar: "d < 10 \<Longrightarrow> digit_char d \<noteq> CHR ''|''"
proof -
  assume "d < 10"
  then have "d \<in> {0, 1, 2, 3, 4, 5, 6, 7, 8, 9}" by auto
  then show ?thesis by (auto simp: digit_char_def)
qed

lemma bar_free_string_of_nat: "bar_free (string_of_nat n)"
proof (induction n rule: string_of_nat.induct)
  case (1 n)
  show ?case
  proof (cases "n < 10")
    case True
    then show ?thesis
      using digit_char_bar [of n] by (subst string_of_nat.simps) (auto simp: bar_free_def)
  next
    case False
    then have "bar_free (string_of_nat (n div 10))" using 1 by simp
    moreover have "digit_char (n mod 10) \<noteq> CHR ''|''" by (rule digit_char_bar) simp
    ultimately show ?thesis
      using False by (subst string_of_nat.simps) (auto simp: bar_free_def)
  qed
qed

lemma bar_free_String_int: "bar_free (String_int i)"
  using bar_free_string_of_nat by (simp add: String_int_def bar_free_def)

lemma bar_free_String_id: "bar_free (String_id p)"
  using bar_free_String_int by (cases p) (auto simp: String_id_def bar_free_def)

lemma extract_step_bar_free:
  "list_all (\<lambda>it. bar_free (item_key it)) (fst st) \<Longrightarrow>
   list_all (\<lambda>it. bar_free (item_key it)) (fst (extract_step st li))"
  using bar_free_String_id [of "pid_of li"] bar_free_String_int [of "vid_of li"]
  by (auto simp: extract_step_def Let_def bar_free_def)

lemma extract_fold_bar_free:
  "list_all (\<lambda>it. bar_free (item_key it)) (fst st) \<Longrightarrow>
   list_all (\<lambda>it. bar_free (item_key it)) (fst (foldl extract_step st ls))"
  by (induction ls arbitrary: st) (auto simp: extract_step_bar_free)

lemma uniq_fold:
  "keyed item_key S \<Longrightarrow> keyed item_key (foldl uniq_step S xs)
     \<and> map_of (foldl uniq_step S xs) k =
        (case map_of S k of Some v \<Rightarrow> Some v | None \<Rightarrow> List.find (\<lambda>it. item_key it = k) xs)"
  by (rule first_wins_fold) (simp_all add: uniq_step_def)

lemma set_first_wins:
  assumes "keyed kf S" and "\<And>k. map_of S k = List.find (\<lambda>it. kf it = k) xs"
  shows "set (map snd S) \<subseteq> set xs \<and> kf ` set (map snd S) = kf ` set xs"
proof -
  have a: "v \<in> set xs" if "v \<in> set (map snd S)" for v
  proof -
    from that obtain k where "(k, v) \<in> set S" by auto
    then have "map_of S k = Some v" using assms(1) by (simp add: keyed_def)
    then have "List.find (\<lambda>it. kf it = k) xs = Some v" using assms(2) by simp
    then show ?thesis by (auto simp: find_Some_iff)
  qed
  have b: "kf x \<in> kf ` set (map snd S)" if "x \<in> set xs" for x
  proof -
    from that have "List.find (\<lambda>it. kf it = kf x) xs \<noteq> None" by (auto simp: find_None_iff)
    then obtain v where f: "List.find (\<lambda>it. kf it = kf x) xs = Some v" by auto
    then have "map_of S (kf x) = Some v" using assms(2) by simp
    then have "(kf x, v) \<in> set S" by (rule map_of_SomeD)
    then have "v \<in> set (map snd S)" by force
    moreover have "kf v = kf x" using f by (auto simp: find_Some_iff)
    ultimately show ?thesis by (metis imageI)
  qed
  show ?thesis using a b by auto
qed

lemma extractItems_props:
  "distinct (map item_key (extractItemsForOrder ord))
   \<and> list_all (\<lambda>it. bar_free (item_key it)) (extractItemsForOrder ord)"
proof -
  define st where "st = foldl extract_step ([], False) (o_line_items ord)"
  define items where "items = (if snd st
         then fst st @ [\<lparr>item_key = ''gummies::consolidated'', item_label = ''Gummies''\<rparr>]
         else fst st)"
  have "list_all (\<lambda>it. bar_free (item_key it)) (fst st)"
    unfolding st_def by (rule extract_fold_bar_free) simp
  then have bf: "list_all (\<lambda>it. bar_free (item_key it)) items"
    by (simp add: items_def bar_free_def)
  have k: "keyed item_key (foldl uniq_step [] items)"
    and m: "\<And>k. map_of (foldl uniq_step [] items) k = List.find (\<lambda>it. item_key it = k) items"
    using uniq_fold [OF keyed_Nil, of items] by simp_all
  have sub: "set (map snd (foldl uniq_step [] items)) \<subseteq> set items"
    using set_first_wins [OF k m] by blast
  have e: "extractItemsForOrder ord = map snd (foldl uniq_step [] items)"
    by (simp add: extractItemsForOrder_def Let_def items_def st_def)
  have "list_all (\<lambda>it. bar_free (item_key it)) (map snd (foldl uniq_step [] items))"
    using bf sub unfolding list_all_iff by blast
  then show ?thesis
    unfolding e using keyed_distinct [OF k] by blast
qed

lemma Map_get0_bump: "Map_get0 (Map_bump m k) k' = Map_get0 m k' + (if k' = k then 1 else 0)"
  by (simp add: Map_get0_def Map_bump_def Map_set_def update_conv')

lemma Map_get0_bumps:
  "Map_get0 (foldl Map_bump m ks) k = Map_get0 m k + count_list ks k"
  by (induction ks arbitrary: m) (auto simp: Map_get0_bump)

lemma dom_bumps: "fst ` set (foldl Map_bump m ks) = fst ` set m \<union> set ks"
  by (induction ks arbitrary: m) (auto simp: Map_bump_def Map_set_def dom_update)

lemma distinct_bumps: "distinct (map fst m) \<Longrightarrow> distinct (map fst (foldl Map_bump m ks))"
  by (induction ks arbitrary: m) (auto simp: Map_bump_def Map_set_def distinct_update)

lemma item_step_fold:
  "distinct (map item_key items) \<Longrightarrow> set (map item_key items) \<inter> set seen = {} \<Longrightarrow>
   itemCounts (fst (foldl item_step (st, seen) items))
     = foldl Map_bump (itemCounts st) (map item_key items)
   \<and> pairCounts (fst (foldl item_step (st, seen) items)) = pairCounts st"
proof (induction items arbitrary: st seen)
  case Nil
  then show ?case by simp
next
  case (Cons it items)
  let ?st1 = "st\<lparr>products := Map_set (products st) (item_key it) (item_label it),
                  itemCounts := Map_bump (itemCounts st) (item_key it)\<rparr>"
  have step: "item_step (st, seen) it = (?st1, seen @ [item_key it])"
    using Cons.prems by (simp add: item_step_def Let_def)
  have "distinct (map item_key items)"
    and "set (map item_key items) \<inter> set (seen @ [item_key it]) = {}"
    using Cons.prems by auto
  from Cons.IH [OF this, of ?st1] show ?case
    by (simp add: step)
qed

lemma foldl_nested:
  "foldl (\<lambda>a i. foldl (\<lambda>a j. h a (F i j)) a (J i)) a I
   = foldl h a (concat (map (\<lambda>i. map (F i) (J i)) I))"
  by (induction I arbitrary: a) (simp_all add: foldl_map)

lemma index_pairs:
  "concat (map (\<lambda>i. map (\<lambda>j. f (ks ! i) (ks ! j)) [i + 1 ..< length ks]) [0 ..< length ks])
   = map (\<lambda>p. f (fst p) (snd p)) (pairs_of ks)"
proof (induction ks)
  case Nil
  then show ?case by simp
next
  case (Cons x xs)
  have up: "[0 ..< length (x # xs)] = 0 # map Suc [0 ..< length xs]"
    by (simp add: upt_conv_Cons map_Suc_upt del: upt_Suc)
  have row0: "map (\<lambda>j. f ((x # xs) ! 0) ((x # xs) ! j)) [0 + 1 ..< length (x # xs)]
              = map (\<lambda>p. f (fst p) (snd p)) (map (Pair x) xs)"
  proof -
    have "[0 + 1 ..< length (x # xs)] = map Suc [0 ..< length xs]"
      by (simp add: map_Suc_upt del: upt_Suc)
    then have "map (\<lambda>j. f ((x # xs) ! 0) ((x # xs) ! j)) [0 + 1 ..< length (x # xs)]
               = map (\<lambda>j. f x (xs ! j)) [0 ..< length xs]"
      by (simp add: comp_def del: upt_Suc)
    also have "\<dots> = map (f x) (map (\<lambda>j. xs ! j) [0 ..< length xs])"
      by (simp add: comp_def del: upt_Suc)
    also have "\<dots> = map (f x) xs" by (simp only: map_nth)
    finally show ?thesis by (simp add: comp_def)
  qed
  have rows: "map (\<lambda>i. map (\<lambda>j. f ((x # xs) ! i) ((x # xs) ! j)) [i + 1 ..< length (x # xs)])
                (map Suc [0 ..< length xs])
              = map (\<lambda>i. map (\<lambda>j. f (xs ! i) (xs ! j)) [i + 1 ..< length xs]) [0 ..< length xs]"
  proof -
    have "map (\<lambda>j. f (xs ! i) ((x # xs) ! j)) [Suc i + 1 ..< Suc (length xs)]
          = map (\<lambda>j. f (xs ! i) (xs ! j)) [i + 1 ..< length xs]" for i
    proof -
      have "[Suc i + 1 ..< Suc (length xs)] = map Suc [i + 1 ..< length xs]"
        by (simp add: map_Suc_upt del: upt_Suc)
      then show ?thesis by (simp add: comp_def del: upt_Suc)
    qed
    then show ?thesis by (simp add: comp_def del: upt_Suc)
  qed
  show ?case
    unfolding up list.map concat.simps row0 rows Cons.IH by simp
qed

lemma pair_loop_bumps: "pair_loop keys pc = foldl Map_bump pc (pair_keys keys)"
  unfolding pair_loop_def pair_keys_def
  using foldl_nested [of Map_bump "\<lambda>i j. (keys ! i) @ ''||'' @ (keys ! j)"
      "\<lambda>i. [i + 1 ..< length keys]" pc "[0 ..< length keys]"]
    index_pairs [of "\<lambda>a b. a @ ''||'' @ b" keys]
  by simp

lemma item_eta: "map (\<lambda>it. \<lparr>item_key = item_key it, item_label = item_label it\<rparr>) xs = xs"
  by (induction xs) auto

lemma process_order_counts:
  "itemCounts (process_order st ord)
     = foldl Map_bump (itemCounts st) (map item_key (extractItemsForOrder ord))
   \<and> pairCounts (process_order st ord)
     = foldl Map_bump (pairCounts st)
         (pair_keys (sort (map item_key (extractItemsForOrder ord))))"
proof (cases "extractItemsForOrder ord = []")
  case True
  then show ?thesis by (simp add: process_order_def item_eta pair_keys_def)
next
  case False
  have d: "distinct (map item_key (extractItemsForOrder ord))"
    using extractItems_props by blast
  have "length (extractItemsForOrder ord) \<noteq> 0" using False by simp
  then show ?thesis
    using item_step_fold [OF d, of "[]" st]
    by (simp add: process_order_def item_eta Let_def pair_loop_bumps)
qed

lemma pairs_of_set: "(a, b) \<in> set (pairs_of ks) \<Longrightarrow> a \<in> set ks \<and> b \<in> set ks"
  by (induction ks) auto

lemma distinct_pairs_of: "distinct ks \<Longrightarrow> distinct (pairs_of ks)"
proof (induction ks)
  case Nil
  then show ?case by simp
next
  case (Cons x xs)
  have "distinct (map (Pair x) xs)" using Cons.prems by (simp add: distinct_map inj_on_def)
  moreover have "set (map (Pair x) xs) \<inter> set (pairs_of xs) = {}"
    using Cons.prems pairs_of_set [of x _ xs] by auto
  ultimately show ?case using Cons by simp
qed

lemma pair_key_inj:
  "bar_free a \<Longrightarrow> bar_free a' \<Longrightarrow> a @ ''||'' @ b = a' @ ''||'' @ b' \<Longrightarrow> a = a' \<and> b = b'"
  using split_at_char [of "CHR ''|''" a a' "CHR ''|'' # b" "CHR ''|'' # b'"]
  by (simp add: bar_free_def)

lemma distinct_pair_keys:
  assumes "distinct ks" and "list_all bar_free ks"
  shows "distinct (pair_keys ks)"
proof -
  have "inj_on (\<lambda>p. fst p @ ''||'' @ snd p) (set (pairs_of ks))"
  proof (rule inj_onI)
    fix p q assume p: "p \<in> set (pairs_of ks)" and q: "q \<in> set (pairs_of ks)"
      and e: "fst p @ ''||'' @ snd p = fst q @ ''||'' @ snd q"
    have "bar_free (fst p)" "bar_free (fst q)"
      using p q assms(2) pairs_of_set [of "fst p" "snd p" ks] pairs_of_set [of "fst q" "snd q" ks]
      by (auto simp: list_all_iff)
    from pair_key_inj [OF this e] show "p = q" by (simp add: prod_eq_iff)
  qed
  then show ?thesis
    using distinct_pairs_of [OF assms(1)] by (simp add: pair_keys_def distinct_map)
qed

lemma count_list_distinct: "distinct xs \<Longrightarrow> count_list xs x = (if x \<in> set xs then 1 else 0)"
  by (induction xs) auto

lemma pair_keys_member:
  assumes "list_all bar_free ks" and "bar_free a" and "a @ ''||'' @ b \<in> set (pair_keys ks)"
  shows "a \<in> set ks \<and> b \<in> set ks"
proof -
  from assms(3) obtain p where p: "p \<in> set (pairs_of ks)"
    and e: "a @ ''||'' @ b = fst p @ ''||'' @ snd p"
    by (auto simp: pair_keys_def)
  have in_ks: "fst p \<in> set ks" "snd p \<in> set ks"
    using p pairs_of_set [of "fst p" "snd p" ks] by auto
  then have "bar_free (fst p)" using assms(1) by (simp add: list_all_iff)
  from pair_key_inj [OF assms(2) this e] in_ks show ?thesis by simp
qed

lemma pair_keys_form:
  assumes "list_all bar_free ks" and "pk \<in> set (pair_keys ks)"
  shows "\<exists>a b. bar_free a \<and> bar_free b \<and> pk = a @ ''||'' @ b"
proof -
  from assms(2) obtain p where p: "p \<in> set (pairs_of ks)" and e: "pk = fst p @ ''||'' @ snd p"
    by (auto simp: pair_keys_def)
  have "fst p \<in> set ks" "snd p \<in> set ks"
    using p pairs_of_set [of "fst p" "snd p" ks] by auto
  then have "bar_free (fst p)" "bar_free (snd p)" using assms(1) by (simp_all add: list_all_iff)
  with e show ?thesis by blast
qed

lemma process_order_inv:
  assumes "pairs_inv st"
  shows "pairs_inv (process_order st ord)"
proof -
  define items where "items = map item_key (extractItemsForOrder ord)"
  define ks where "ks = sort items"
  have d: "distinct items" and bf: "list_all bar_free items"
    using extractItems_props [of ord] by (simp_all add: items_def list_all_iff)
  have dk: "distinct ks" and bk: "list_all bar_free ks" and sk: "set ks = set items"
    using d bf by (simp_all add: ks_def list_all_iff)
  have ic: "itemCounts (process_order st ord) = foldl Map_bump (itemCounts st) items"
    and pc: "pairCounts (process_order st ord) = foldl Map_bump (pairCounts st) (pair_keys ks)"
    using process_order_counts [of st ord] by (simp_all add: items_def ks_def)
  have 1: "distinct (map fst (pairCounts (process_order st ord)))"
    unfolding pc using assms by (simp add: pairs_inv_def distinct_bumps)
  have 2: "list_all (\<lambda>e. \<exists>a b. bar_free a \<and> bar_free b \<and> fst e = a @ ''||'' @ b)
             (pairCounts (process_order st ord))"
  proof -
    have "\<exists>a b. bar_free a \<and> bar_free b \<and> pk = a @ ''||'' @ b"
      if "pk \<in> fst ` set (pairCounts (process_order st ord))" for pk
    proof -
      from that have "pk \<in> fst ` set (pairCounts st) \<or> pk \<in> set (pair_keys ks)"
        unfolding pc dom_bumps by blast
      then show ?thesis
      proof
        assume "pk \<in> fst ` set (pairCounts st)"
        then show ?thesis using assms by (auto simp: pairs_inv_def list_all_iff)
      next
        assume "pk \<in> set (pair_keys ks)"
        then show ?thesis using pair_keys_form [OF bk] by blast
      qed
    qed
    then show ?thesis unfolding list_all_iff by blast
  qed
  have 3: "Map_get0 (pairCounts (process_order st ord)) (a @ ''||'' @ b)
              \<le> Map_get0 (itemCounts (process_order st ord)) a
         \<and> Map_get0 (pairCounts (process_order st ord)) (a @ ''||'' @ b)
              \<le> Map_get0 (itemCounts (process_order st ord)) b"
    if ab: "bar_free a" "bar_free b" for a b
  proof -
    have old: "Map_get0 (pairCounts st) (a @ ''||'' @ b) \<le> Map_get0 (itemCounts st) a"
      "Map_get0 (pairCounts st) (a @ ''||'' @ b) \<le> Map_get0 (itemCounts st) b"
      using assms ab by (auto simp: pairs_inv_def)
    have cp: "count_list (pair_keys ks) (a @ ''||'' @ b)
              = (if a @ ''||'' @ b \<in> set (pair_keys ks) then 1 else 0)"
      using distinct_pair_keys [OF dk bk] by (rule count_list_distinct)
    have ca: "count_list items a = (if a \<in> set items then 1 else 0)"
      and cb: "count_list items b = (if b \<in> set items then 1 else 0)"
      using d by (simp_all add: count_list_distinct)
    have mem: "a @ ''||'' @ b \<in> set (pair_keys ks) \<Longrightarrow> a \<in> set items \<and> b \<in> set items"
      using pair_keys_member [OF bk ab(1)] sk by simp
    show ?thesis
      unfolding ic pc Map_get0_bumps cp ca cb using old mem by auto
  qed
  show ?thesis
    unfolding pairs_inv_def using 1 2 3 by blast
qed

lemma pairs_inv_fold: "pairs_inv st \<Longrightarrow> pairs_inv (foldl process_order st orders)"
  by (induction orders arbitrary: st) (simp_all add: process_order_inv)

lemma pairs_inv_empty: "pairs_inv empty_state"
  by (simp add: pairs_inv_def empty_state_def Map_get0_def)

lemma split_acc_bar_free: "bar_free b \<Longrightarrow> split_acc ''||'' w b = [rev w @ b]"
proof (induction b arbitrary: w)
  case Nil
  then show ?case by (subst split_acc.simps) simp
next
  case (Cons c b)
  then have "c \<noteq> CHR ''|''" and "bar_free b" by (auto simp: bar_free_def)
  then show ?case
    using Cons.IH [of "c # w"] by (subst split_acc.simps) simp
qed

lemma split_acc_pair:
  "bar_free a \<Longrightarrow> bar_free b \<Longrightarrow> split_acc ''||'' w (a @ ''||'' @ b) = [rev w @ a, b]"
proof (induction a arbitrary: w)
  case Nil
  then show ?case
    using split_acc_bar_free [of b "[]"] by (subst split_acc.simps) simp
next
  case (Cons c a)
  then have "c \<noteq> CHR ''|''" and "bar_free a" by (auto simp: bar_free_def)
  then show ?case
    using Cons.IH [of "c # w"] Cons.prems by (subst split_acc.simps) simp
qed

lemma js_split_pair:
  "bar_free a \<Longrightarrow> bar_free b \<Longrightarrow> js_split (a @ ''||'' @ b) ''||'' = [a, b]"
  using split_acc_pair [of a b "[]"] by (simp add: js_split_def)

lemma pairs_rows_bounded:
  assumes "r \<in> set (pairs (pairs_compute parse fromIso toIso minCount orders))"
  shows "support r \<le> countA r \<and> support r \<le> countB r"
proof -
  define st where "st = foldl process_order empty_state (eligible_orders parse fromIso toIso orders)"
  have inv: "pairs_inv st" unfolding st_def by (rule pairs_inv_fold [OF pairs_inv_empty])
  from assms obtain e where e: "e \<in> set (pairCounts st)"
    and r: "r = make_row (itemCounts st) (length (eligible_orders parse fromIso toIso orders)) e"
    by (auto simp: pairs_compute_def Let_def st_def)
  from inv e obtain a b where ab: "bar_free a" "bar_free b" "fst e = a @ ''||'' @ b"
    by (auto simp: pairs_inv_def list_all_iff)
  have "map_of (pairCounts st) (fst e) = Some (snd e)"
    using inv e by (simp add: pairs_inv_def)
  then have cnt: "snd e = Map_get0 (pairCounts st) (a @ ''||'' @ b)"
    using ab(3) by (simp add: Map_get0_def)
  have "snd e \<le> Map_get0 (itemCounts st) a \<and> snd e \<le> Map_get0 (itemCounts st) b"
    unfolding cnt using inv ab by (simp add: pairs_inv_def)
  moreover have "js_split (fst e) ''||'' = [a, b]"
    using js_split_pair [OF ab(1) ab(2)] ab(3) by simp
  ultimately show ?thesis
    unfolding r by (simp add: make_row_def Let_def part_def count_of_def)
qed

text \<open>
  C1 (amended). On the pairs page the support of every row is at most the count of each
  of its two items. On the bundle page, provided no display name of an item contains the
  character \<open>|\<close> (bundle keys join display names with \<open>" | "\<close>), the count stored for a
  bundle with names \<open>ns\<close> is at most the count stored for each of its non-empty
  sub-bundles \<open>ms\<close>.
\<close>

theorem antimonotone_counts:
  "(\<forall>r \<in> set (pairs (pairs_compute parse fromIso toIso minCount orders)).
      support r \<le> countA r \<and> support r \<le> countB r)
   \<and> ((\<forall>ord \<in> set orders. \<forall>it \<in> set (extractLineItems ex ord). bar_free (displayName it))
        \<and> list_all bar_free ns \<and> subseq ms ns \<and> ms \<noteq> [] \<longrightarrow>
      count_at (bundlesBySize cmp ex orders (length ns)) (join '' | '' ns)
        \<le> count_at (bundlesBySize cmp ex orders (length ms)) (join '' | '' ms))"
  using pairs_rows_bounded bundle_counts_mono by blast

theorem antimonotone_counts_witness:
  "map (\<lambda>r. (row_A r, row_B r, support r, countA r, countB r))
       (pairs (pairs_compute parse_demo None None 1 demo_orders))
     = [(Some ''11::0'', Some ''12::0'', 1, 2, 1)]
   \<and> list_all (\<lambda>ord. list_all (\<lambda>it. bar_free (displayName it)) (extractLineItems False ord))
        demo_orders
   \<and> list_all bar_free [''Coffee'', ''Tea''] \<and> subseq [''Tea''] [''Coffee'', ''Tea'']
   \<and> count_at (bundlesBySize code_compare False demo_orders (length [''Coffee'', ''Tea'']))
        (join '' | '' [''Coffee'', ''Tea'']) = 1
   \<and> count_at (bundlesBySize code_compare False demo_orders (length [''Tea'']))
        (join '' | '' [''Tea'']) = 2"
proof -
  have rows: "map (\<lambda>r. (row_A r, row_B r, support r, countA r, countB r))
       (pairs (pairs_compute parse_demo None None 1 demo_orders))
     = [(Some ''11::0'', Some ''12::0'', 1, 2, 1)]"
    by code_simp
  have names: "list_all (\<lambda>ord. list_all (\<lambda>it. bar_free (displayName it))
      (extractLineItems False ord)) demo_orders"
    by code_simp
  have c2: "count_at (bundlesBySize code_compare False demo_orders (length [''Coffee'', ''Tea'']))
        (join '' | '' [''Coffee'', ''Tea'']) = 1"
    by code_simp
  have c1: "count_at (bundlesBySize code_compare False demo_orders (length [''Tea'']))
        (join '' | '' [''Tea'']) = 2"
    by code_simp
  have sub: "subseq [''Tea''] [''Coffee'', ''Tea'']" by simp
  have bf: "list_all bar_free [''Coffee'', ''Tea'']" by (simp add: bar_free_def)
  show ?thesis
    using rows names c1 c2 sub bf
      antimonotone_counts [of parse_demo None None 1 demo_orders False "[''Coffee'', ''Tea'']"
        "[''Tea'']" code_compare]
    by simp
qed

text \<open>
  With display names that contain \<open>|\<close> two different bundles can share a key: the orders
  \<open>{#1, | B}\<close> and \<open>{#1 |, B}\<close> both count under \<open>"#1 | | B"\<close>, which then holds 2 while
  the sub-bundle \<open>{#1}\<close> of the first holds 1.
\<close>

theorem antimonotone_counts_counterexample:
  "map displayName (sorted_items code_compare False (bar_orders ! 0)) = [''#1'', ''| B'']
   \<and> count_at (bundlesBySize code_compare False bar_orders 2) (join '' | '' [''#1'', ''| B'']) = 2
   \<and> count_at (bundlesBySize code_compare False bar_orders 1) (join '' | '' [''#1'']) = 1"
  by code_simp

subsection \<open>The lift\<close>

lemma pairs_rows_form:
  assumes "r \<in> set (pairs (pairs_compute parse fromIso toIso minCount orders))"
  shows "\<exists>a b. row_A r = Some a \<and> row_B r = Some b
     \<and> support r = Map_get0 (pairCounts (count_pairs parse fromIso toIso orders)) (a @ ''||'' @ b)
     \<and> countA r = Map_get0 (itemCounts (count_pairs parse fromIso toIso orders)) a
     \<and> countB r = Map_get0 (itemCounts (count_pairs parse fromIso toIso orders)) b
     \<and> lift r = lift_of (support r)
          (totalEligibleOrders (pairs_compute parse fromIso toIso minCount orders))
          (countA r) (countB r)"
proof -
  define st where "st = count_pairs parse fromIso toIso orders"
  have st: "st = foldl process_order empty_state (eligible_orders parse fromIso toIso orders)"
    by (simp add: st_def count_pairs_def)
  have inv: "pairs_inv st" unfolding st by (rule pairs_inv_fold [OF pairs_inv_empty])
  have tot: "totalEligibleOrders (pairs_compute parse fromIso toIso minCount orders)
       = length (eligible_orders parse fromIso toIso orders)"
    by (simp add: pairs_compute_def Let_def)
  from assms obtain e where e: "e \<in> set (pairCounts st)"
    and r: "r = make_row (itemCounts st) (length (eligible_orders parse fromIso toIso orders)) e"
    by (auto simp: pairs_compute_def Let_def st)
  from inv e obtain a b where ab: "bar_free a" "bar_free b" "fst e = a @ ''||'' @ b"
    by (auto simp: pairs_inv_def list_all_iff)
  have "map_of (pairCounts st) (fst e) = Some (snd e)"
    using inv e by (simp add: pairs_inv_def)
  then have cnt: "snd e = Map_get0 (pairCounts st) (a @ ''||'' @ b)"
    using ab(3) by (simp add: Map_get0_def)
  have sp: "js_split (fst e) ''||'' = [a, b]"
    using js_split_pair [OF ab(1) ab(2)] ab(3) by simp
  have "row_A r = Some a \<and> row_B r = Some b
     \<and> support r = Map_get0 (pairCounts st) (a @ ''||'' @ b)
     \<and> countA r = Map_get0 (itemCounts st) a
     \<and> countB r = Map_get0 (itemCounts st) b
     \<and> lift r = lift_of (support r) (length (eligible_orders parse fromIso toIso orders))
          (countA r) (countB r)"
    unfolding r using sp cnt by (simp add: make_row_def Let_def part_def count_of_def)
  then show ?thesis unfolding tot st_def by blast
qed

lemma lift_of_value:
  assumes "0 < tot" "0 < cA" "0 < cB"
  shows "lift_of cnt tot cA cB =
     Fin (round53 (round53 (real cnt / real tot)
            / round53 (round53 (real cA / real tot) * round53 (real cB / real tot))))"
  using assms by (simp add: lift_of_def js_of_nat_def round53_eq_0_iff)

lemma lift_of_close:
  assumes "0 < tot" "0 < cA" "0 < cB"
  shows "\<bar>round53 (round53 (real cnt / real tot)
            / round53 (round53 (real cA / real tot) * round53 (real cB / real tot)))
          - real tot * real cnt / (real cA * real cB)\<bar>
         \<le> real tot * real cnt / (real cA * real cB) / 2 ^ 50"
proof -
  have e: "real cnt / real tot / (real cA / real tot * (real cB / real tot))
      = real tot * real cnt / (real cA * real cB)"
    using assms by (simp add: field_simps)
  show ?thesis
    using lift_error [of "real cA / real tot" "real cB / real tot" "real cnt / real tot"] assms
    unfolding e by simp
qed

lemma js_mul_commute: "js_mul a b = js_mul b a"
  by (cases a; cases b) (auto simp: mult.commute)

text \<open>
  C8 (amended). The lift is invariant under swapping the two singleton counts. Every row
  of the pairs page carries the two parts of its pair key, the aggregated pair count as
  support, the aggregated counts of the two items, and the lift of these and the number
  of eligible orders. With non-zero denominators the lift is the double that the
  operations of \<open>(count / N) / ((countA / N) * (countB / N))\<close> give, each rounded; it
  differs from \<open>N * count / (countA * countB)\<close> by at most the fraction \<open>2 ^ -50\<close> of
  that value, and need not be equal to it.
\<close>

theorem lift_symmetric:
  "lift_of cnt tot cA cB = lift_of cnt tot cB cA
   \<and> (\<forall>r \<in> set (pairs (pairs_compute parse fromIso toIso minCount orders)).
        \<exists>a b. row_A r = Some a \<and> row_B r = Some b
          \<and> support r = Map_get0 (pairCounts (count_pairs parse fromIso toIso orders)) (a @ ''||'' @ b)
          \<and> countA r = Map_get0 (itemCounts (count_pairs parse fromIso toIso orders)) a
          \<and> countB r = Map_get0 (itemCounts (count_pairs parse fromIso toIso orders)) b
          \<and> lift r = lift_of (support r)
               (totalEligibleOrders (pairs_compute parse fromIso toIso minCount orders))
               (countA r) (countB r))
   \<and> (0 < tot \<and> 0 < cA \<and> 0 < cB \<longrightarrow>
        (let v = round53 (round53 (real cnt / real tot)
                   / round53 (round53 (real cA / real tot) * round53 (real cB / real tot)));
             x = real tot * real cnt / (real cA * real cB)
         in lift_of cnt tot cA cB = Fin v \<and> \<bar>v - x\<bar> \<le> x / 2 ^ 50))"
proof (intro conjI ballI impI)
  show "lift_of cnt tot cA cB = lift_of cnt tot cB cA"
    by (auto simp: lift_of_def js_mul_commute [of "js_div (js_of_nat cA) (js_of_nat tot)"])
next
  fix r assume "r \<in> set (pairs (pairs_compute parse fromIso toIso minCount orders))"
  then show "\<exists>a b. row_A r = Some a \<and> row_B r = Some b
          \<and> support r = Map_get0 (pairCounts (count_pairs parse fromIso toIso orders)) (a @ ''||'' @ b)
          \<and> countA r = Map_get0 (itemCounts (count_pairs parse fromIso toIso orders)) a
          \<and> countB r = Map_get0 (itemCounts (count_pairs parse fromIso toIso orders)) b
          \<and> lift r = lift_of (support r)
               (totalEligibleOrders (pairs_compute parse fromIso toIso minCount orders))
               (countA r) (countB r)"
    by (rule pairs_rows_form)
next
  assume "0 < tot \<and> 0 < cA \<and> 0 < cB"
  then show "let v = round53 (round53 (real cnt / real tot)
                   / round53 (round53 (real cA / real tot) * round53 (real cB / real tot)));
             x = real tot * real cnt / (real cA * real cB)
         in lift_of cnt tot cA cB = Fin v \<and> \<bar>v - x\<bar> \<le> x / 2 ^ 50"
    unfolding Let_def using lift_of_value [of tot cA cB cnt] lift_of_close [of tot cA cB cnt]
    by simp
qed

theorem lift_symmetric_witness:
  "map (\<lambda>r. (row_A r, row_B r, support r, countA r, countB r, lift r))
       (pairs (pairs_compute parse_demo None None 1 demo_orders))
     = [(Some ''11::0'', Some ''12::0'', 1, 2, 1, Fin 1)]
   \<and> totalEligibleOrders (pairs_compute parse_demo None None 1 demo_orders) = 2
   \<and> lift_of 1 2 2 1 = Fin 1 \<and> lift_of 1 2 1 2 = Fin 1"
proof -
  have r: "map (\<lambda>r. (row_A r, row_B r, support r, countA r, countB r, lift r))
       (pairs (pairs_compute parse_demo None None 1 demo_orders))
     = [(Some ''11::0'', Some ''12::0'', 1, 2, 1, Fin 1)]"
    by code_simp
  have t: "totalEligibleOrders (pairs_compute parse_demo None None 1 demo_orders) = 2"
    by code_simp
  have l: "lift_of 1 2 2 1 = Fin 1"
    by code_simp
  show ?thesis
    using r t l lift_symmetric [of 1 2 2 1 parse_demo None None 1 demo_orders]
    by simp
qed

text \<open>
  With five eligible orders, support 1 and counts 1 and 1 the lift is not 5 but the
  double just below.
\<close>

theorem lift_symmetric_counterexample:
  "map (\<lambda>r. (row_A r, row_B r, support r, countA r, countB r))
       (pairs (pairs_compute parse_demo None None 1 lift_orders))
     = [(Some ''21::0'', Some ''22::0'', 1, 1, 1)]
   \<and> totalEligibleOrders (pairs_compute parse_demo None None 1 lift_orders) = 5
   \<and> map lift (pairs (pairs_compute parse_demo None None 1 lift_orders))
       = [Fin (5629499534213119 / 1125899906842624)]
   \<and> Fin (5629499534213119 / 1125899906842624) \<noteq> Fin (5 * 1 / (1 * 1))"
  by code_simp

subsection \<open>Refunded orders\<close>

lemma eligible_orders_drop:
  "\<not> isOrderEligible parse ord fromIso toIso \<Longrightarrow>
   eligible_orders parse fromIso toIso (before @ ord # after)
   = eligible_orders parse fromIso toIso (before @ after)"
  by (simp add: eligible_orders_def)

lemma not_eligible_refunded:
  "js_seq (Number_or0 (o_total ord)) (Fin 0)
     \<or> js_ge (Number_or0 (o_total_refunded ord)) (Number_or0 (o_total ord))
   \<Longrightarrow> \<not> isOrderEligible parse ord fromIso toIso"
  by (auto simp: isOrderEligible_def Let_def)

lemma order_step_ignores_totals:
  "order_step cmp ex M (ord\<lparr>o_total := t, o_total_refunded := rf\<rparr>) = order_step cmp ex M ord"
proof -
  let ?o = "ord\<lparr>o_total := t, o_total_refunded := rf\<rparr>"
  have e: "extractLineItems ex ?o = extractLineItems ex ord"
    by (simp add: extractLineItems_def extract_by_def collect_items_def)
  have c: "comb_step cmp ?o = comb_step cmp ord"
    by (intro ext) (simp add: comb_step_def order_ref_def)
  have s: "size_step cmp ?o = size_step cmp ord"
    by (intro ext) (simp add: size_step_def c)
  show ?thesis
    by (simp add: order_step_def eligible_status_def status_of_def sorted_items_def e s)
qed

lemma order_step2_ignores_totals:
  "order_step2 cmp ex M (ord\<lparr>o_total := t, o_total_refunded := rf\<rparr>) = order_step2 cmp ex M ord"
proof -
  let ?o = "ord\<lparr>o_total := t, o_total_refunded := rf\<rparr>"
  have e: "extractLineItems2 ex ?o = extractLineItems2 ex ord"
    by (simp add: extractLineItems2_def extract_by_def collect_items_def)
  have c: "comb_step2 cmp ?o = comb_step2 cmp ord"
    by (intro ext) (simp add: comb_step2_def order_ref_def)
  have s: "size_step2 cmp ?o = size_step2 cmp ord"
    by (intro ext) (simp add: size_step2_def c)
  show ?thesis
    by (simp add: order_step2_def eligible_status2_def status_of_def sorted_items2_def e s)
qed

text \<open>
  C2 (amended). On the pairs page an order whose total is 0, or whose refunded total is
  at least its total, is not eligible whatever its status: it is not counted in
  \<open>totalEligibleOrders\<close> and the result is the one computed without it. The bundle pages
  decide eligibility by status alone: in both variants the bundle maps and
  \<open>totalEligibleOrders\<close> do not depend on an order's total or refunded total.
\<close>

theorem refunded_orders_excluded:
  "(js_seq (Number_or0 (o_total ord)) (Fin 0)
      \<or> js_ge (Number_or0 (o_total_refunded ord)) (Number_or0 (o_total ord)) \<longrightarrow>
      \<not> isOrderEligible parse ord fromIso toIso
      \<and> pairs_compute parse fromIso toIso minCount (before @ ord # after)
          = pairs_compute parse fromIso toIso minCount (before @ after)
      \<and> count_pairs parse fromIso toIso (before @ ord # after)
          = count_pairs parse fromIso toIso (before @ after))
   \<and> bundlesBySize cmp ex (before @ ord\<lparr>o_total := t, o_total_refunded := rf\<rparr> # after)
       = bundlesBySize cmp ex (before @ ord # after)
   \<and> bundlesBySize2 cmp ex (before @ ord\<lparr>o_total := t, o_total_refunded := rf\<rparr> # after)
       = bundlesBySize2 cmp ex (before @ ord # after)
   \<and> bundle_totalEligibleOrders (before @ ord\<lparr>o_total := t, o_total_refunded := rf\<rparr> # after)
       = bundle_totalEligibleOrders (before @ ord # after)
   \<and> bundle_totalEligibleOrders2 (before @ ord\<lparr>o_total := t, o_total_refunded := rf\<rparr> # after)
       = bundle_totalEligibleOrders2 (before @ ord # after)"
proof (intro conjI impI)
  assume a: "js_seq (Number_or0 (o_total ord)) (Fin 0)
      \<or> js_ge (Number_or0 (o_total_refunded ord)) (Number_or0 (o_total ord))"
  then show ne: "\<not> isOrderEligible parse ord fromIso toIso" by (rule not_eligible_refunded)
  show "pairs_compute parse fromIso toIso minCount (before @ ord # after)
          = pairs_compute parse fromIso toIso minCount (before @ after)"
    unfolding pairs_compute_def eligible_orders_drop [OF ne] by (rule refl)
  show "count_pairs parse fromIso toIso (before @ ord # after)
          = count_pairs parse fromIso toIso (before @ after)"
    unfolding count_pairs_def eligible_orders_drop [OF ne] by (rule refl)
next
  show "bundlesBySize cmp ex (before @ ord\<lparr>o_total := t, o_total_refunded := rf\<rparr> # after)
       = bundlesBySize cmp ex (before @ ord # after)"
    by (simp add: bundlesBySize_def order_step_ignores_totals)
  show "bundlesBySize2 cmp ex (before @ ord\<lparr>o_total := t, o_total_refunded := rf\<rparr> # after)
       = bundlesBySize2 cmp ex (before @ ord # after)"
    by (simp add: bundlesBySize2_def order_step2_ignores_totals)
  show "bundle_totalEligibleOrders (before @ ord\<lparr>o_total := t, o_total_refunded := rf\<rparr> # after)
       = bundle_totalEligibleOrders (before @ ord # after)"
    by (simp add: bundle_totalEligibleOrders_def status_of_def)
  show "bundle_totalEligibleOrders2 (before @ ord\<lparr>o_total := t, o_total_refunded := rf\<rparr> # after)
       = bundle_totalEligibleOrders2 (before @ ord # after)"
    by (simp add: bundle_totalEligibleOrders2_def status_of_def)
qed

theorem refunded_orders_excluded_witness:
  "js_ge (Number_or0 (o_total_refunded refunded_order)) (Number_or0 (o_total refunded_order))
   \<and> \<not> isOrderEligible parse_demo refunded_order None None
   \<and> totalEligibleOrders (pairs_compute parse_demo None None 1 (demo_orders @ refunded_order # []))
       = 2
   \<and> itemCounts (count_pairs parse_demo None None (demo_orders @ refunded_order # []))
       = [(''11::0'', 2), (''12::0'', 1)]"
proof -
  have h: "js_ge (Number_or0 (o_total_refunded refunded_order))
             (Number_or0 (o_total refunded_order))"
    by (simp add: refunded_order_def order_of_def order0_def Number_or0_def js_ge_def js_le_def)
  have t: "totalEligibleOrders (pairs_compute parse_demo None None 1 (demo_orders @ [])) = 2"
    by code_simp
  have i: "itemCounts (count_pairs parse_demo None None (demo_orders @ []))
       = [(''11::0'', 2), (''12::0'', 1)]"
    by code_simp
  show ?thesis
    using h t i refunded_orders_excluded [of refunded_order parse_demo None None 1 demo_orders "[]"]
    by simp
qed

text \<open>
  A completed, fully refunded order is counted by both bundle pages, in their bundles and
  in their \<open>totalEligibleOrders\<close>.
\<close>

theorem refunded_orders_excluded_counterexample:
  "status_of refunded_order = ''completed''
   \<and> js_ge (Number_or0 (o_total_refunded refunded_order)) (Number_or0 (o_total refunded_order))
   \<and> count_at (bundlesBySize code_compare False [refunded_order] 1) ''Tea'' = 1
   \<and> bundle_totalEligibleOrders [refunded_order] = 1
   \<and> count_at (bundlesBySize2 code_compare False [refunded_order] 1) ''11'' = 1
   \<and> bundle_totalEligibleOrders2 [refunded_order] = 1"
  by code_simp

subsection \<open>Zero-signal lines\<close>

lemma extract_step_skip:
  "js_le (Number_or0 (li_quantity li)) (Fin 0) \<or> js_le (lineTotal li) (Fin 0)
   \<Longrightarrow> extract_step st li = st"
  by (auto simp: extract_step_def Let_def)

lemma collect_step_ignores_amounts:
  "collect_step ex st (li\<lparr>li_quantity := q, li_subtotal := sb, li_total := t\<rparr>)
   = collect_step ex st li"
  by (simp add: collect_step_def plain_item_def metaValues_of_def metaVariant_of_def
      pid_of_def vid_of_def Let_def)

lemma extract_by_ignores_amounts:
  "extract_by kf gk ex
     (ord\<lparr>o_line_items := before @ li\<lparr>li_quantity := q, li_subtotal := sb, li_total := t\<rparr> # after\<rparr>)
   = extract_by kf gk ex (ord\<lparr>o_line_items := before @ li # after\<rparr>)"
  by (simp add: extract_by_def collect_items_def collect_step_ignores_amounts)

text \<open>
  C6 (amended). On the pairs page a line item with quantity \<open>\<le> 0\<close> or with total (or,
  failing that, subtotal) \<open>\<le> 0\<close> resolves to no key, and the order's items are those of
  the order without that line. The bundle pages do not look at quantities or amounts:
  their item resolution is unchanged when a line's quantity, subtotal and total change.
\<close>

theorem zero_signal_lines_skipped:
  "(js_le (Number_or0 (li_quantity li)) (Fin 0) \<or> js_le (lineTotal li) (Fin 0) \<longrightarrow>
      resolved_key li = None
      \<and> extractItemsForOrder (ord\<lparr>o_line_items := before @ li # after\<rparr>)
          = extractItemsForOrder (ord\<lparr>o_line_items := before @ after\<rparr>))
   \<and> extractLineItems ex
        (ord\<lparr>o_line_items := before @ li\<lparr>li_quantity := q, li_subtotal := sb, li_total := t\<rparr> # after\<rparr>)
       = extractLineItems ex (ord\<lparr>o_line_items := before @ li # after\<rparr>)
   \<and> extractLineItems2 ex
        (ord\<lparr>o_line_items := before @ li\<lparr>li_quantity := q, li_subtotal := sb, li_total := t\<rparr> # after\<rparr>)
       = extractLineItems2 ex (ord\<lparr>o_line_items := before @ li # after\<rparr>)"
proof (intro conjI impI)
  assume a: "js_le (Number_or0 (li_quantity li)) (Fin 0) \<or> js_le (lineTotal li) (Fin 0)"
  show "resolved_key li = None"
    by (simp add: resolved_key_def extract_step_skip [OF a])
  show "extractItemsForOrder (ord\<lparr>o_line_items := before @ li # after\<rparr>)
          = extractItemsForOrder (ord\<lparr>o_line_items := before @ after\<rparr>)"
    by (simp add: extractItemsForOrder_def extract_step_skip [OF a])
next
  show "extractLineItems ex
        (ord\<lparr>o_line_items := before @ li\<lparr>li_quantity := q, li_subtotal := sb, li_total := t\<rparr> # after\<rparr>)
       = extractLineItems ex (ord\<lparr>o_line_items := before @ li # after\<rparr>)"
    unfolding extractLineItems_def by (rule extract_by_ignores_amounts)
  show "extractLineItems2 ex
        (ord\<lparr>o_line_items := before @ li\<lparr>li_quantity := q, li_subtotal := sb, li_total := t\<rparr> # after\<rparr>)
       = extractLineItems2 ex (ord\<lparr>o_line_items := before @ li # after\<rparr>)"
    unfolding extractLineItems2_def by (rule extract_by_ignores_amounts)
qed

theorem zero_signal_lines_skipped_witness:
  "js_le (Number_or0 (li_quantity zero_line)) (Fin 0)
   \<and> resolved_key zero_line = None
   \<and> extractItemsForOrder (order0\<lparr>o_line_items := [] @ zero_line # [line_of 12 ''Coffee'']\<rparr>)
      = [\<lparr>item_key = ''12::0'', item_label = ''Coffee''\<rparr>]"
proof -
  have h: "js_le (Number_or0 (li_quantity zero_line)) (Fin 0)"
    by (simp add: zero_line_def line_of_def line0_def Number_or0_def js_le_def)
  have e: "extractItemsForOrder (order0\<lparr>o_line_items := [] @ [line_of 12 ''Coffee'']\<rparr>)
      = [\<lparr>item_key = ''12::0'', item_label = ''Coffee''\<rparr>]"
    by code_simp
  show ?thesis
    using h e zero_signal_lines_skipped [where li = zero_line and ord = order0
        and before = "[]" and after = "[line_of 12 ''Coffee'']"]
    by simp
qed

text \<open>A line with quantity 0 still yields an item, and a bundle, on the bundle page.\<close>

theorem zero_signal_lines_skipped_counterexample:
  "js_le (Number_or0 (li_quantity zero_line)) (Fin 0)
   \<and> map displayName (extractLineItems False (order_of 1 ''completed'' [zero_line])) = [''Tea'']
   \<and> count_at (bundlesBySize code_compare False [order_of 1 ''completed'' [zero_line]] 1) ''Tea''
      = 1"
  by code_simp

subsection \<open>Presence-based counting\<close>

lemma extract_step_append:
  "extract_step st li =
     (fst st @ fst (extract_step ([], False) li), snd st \<or> snd (extract_step ([], False) li))"
  by (cases st) (simp add: extract_step_def Let_def)

lemma extract_fold_keys:
  "li \<in> set ls \<Longrightarrow> resolved_key li = Some k \<Longrightarrow>
   (snd (foldl extract_step st ls) \<and> k = ''gummies::consolidated'')
   \<or> k \<in> item_key ` set (fst (foldl extract_step st ls))"
proof (induction ls arbitrary: st rule: rev_induct)
  case Nil
  then show ?case by simp
next
  case (snoc l ls)
  let ?s = "foldl extract_step st ls"
  have step: "foldl extract_step st (ls @ [l]) =
      (fst ?s @ fst (extract_step ([], False) l), snd ?s \<or> snd (extract_step ([], False) l))"
    using extract_step_append [of ?s l] by simp
  show ?case
  proof (cases "li = l")
    case True
    then show ?thesis
      using snoc.prems(2) unfolding step
      by (auto simp: resolved_key_def Let_def split: if_splits list.splits)
  next
    case False
    then have "li \<in> set ls" using snoc.prems by simp
    from snoc.IH [OF this snoc.prems(2), of st] show ?thesis
      unfolding step by auto
  qed
qed

lemma resolved_key_extracted:
  assumes "li \<in> set (o_line_items ord)" and "resolved_key li = Some k"
  shows "k \<in> item_key ` set (extractItemsForOrder ord)"
proof -
  define st where "st = foldl extract_step ([], False) (o_line_items ord)"
  define items where "items = (if snd st
         then fst st @ [\<lparr>item_key = ''gummies::consolidated'', item_label = ''Gummies''\<rparr>]
         else fst st)"
  have "k \<in> item_key ` set items"
    using extract_fold_keys [OF assms, of "([], False)"]
    by (auto simp: items_def st_def)
  moreover have k: "keyed item_key (foldl uniq_step [] items)"
    and m: "\<And>k. map_of (foldl uniq_step [] items) k = List.find (\<lambda>it. item_key it = k) items"
    using uniq_fold [OF keyed_Nil, of items] by simp_all
  moreover have e: "extractItemsForOrder ord = map snd (foldl uniq_step [] items)"
    by (simp add: extractItemsForOrder_def Let_def items_def st_def)
  ultimately show ?thesis
    using set_first_wins [OF k m] by simp
qed

lemma length_filter_key:
  "distinct (map f xs) \<Longrightarrow> k \<in> f ` set xs \<Longrightarrow> length (filter (\<lambda>x. f x = k) xs) = 1"
proof (induction xs)
  case Nil
  then show ?case by simp
next
  case (Cons x xs)
  show ?case
  proof (cases "f x = k")
    case True
    then have "k \<notin> f ` set xs" using Cons.prems by auto
    then have "filter (\<lambda>x. f x = k) xs = []" by (auto simp: filter_empty_conv)
    with True show ?thesis by simp
  next
    case False
    then show ?thesis using Cons by auto
  qed
qed

text \<open>
  C4. When a line item of an order resolves to the key \<open>k\<close> (however many of its lines
  do), the order's items hold exactly one item with key \<open>k\<close>; processing the order raises
  the item count of \<open>k\<close> by exactly 1 and every pair count by at most 1; and an eligible
  order appended to a dataset raises the item count of \<open>k\<close> by exactly 1.
\<close>

theorem presence_based_counting:
  "li \<in> set (o_line_items ord) \<and> resolved_key li = Some k \<longrightarrow>
     length (filter (\<lambda>it. item_key it = k) (extractItemsForOrder ord)) = 1
     \<and> Map_get0 (itemCounts (process_order st ord)) k = Map_get0 (itemCounts st) k + 1
     \<and> (\<forall>pk. Map_get0 (pairCounts (process_order st ord)) pk \<le> Map_get0 (pairCounts st) pk + 1)
     \<and> (isOrderEligible parse ord fromIso toIso \<longrightarrow>
          Map_get0 (itemCounts (count_pairs parse fromIso toIso (orders @ [ord]))) k
          = Map_get0 (itemCounts (count_pairs parse fromIso toIso orders)) k + 1)"
proof (intro impI)
  assume a: "li \<in> set (o_line_items ord) \<and> resolved_key li = Some k"
  define items where "items = map item_key (extractItemsForOrder ord)"
  have d: "distinct items" and bf: "list_all bar_free items"
    using extractItems_props [of ord] by (simp_all add: items_def list_all_iff)
  have kin: "k \<in> set items" using resolved_key_extracted [of li ord k] a by (simp add: items_def)
  have c1: "count_list items k = 1" using d kin by (simp add: count_list_distinct)
  have len: "length (filter (\<lambda>it. item_key it = k) (extractItemsForOrder ord)) = 1"
    using d kin unfolding items_def by (intro length_filter_key) simp_all
  have ic: "Map_get0 (itemCounts (process_order s ord)) k = Map_get0 (itemCounts s) k + 1" for s
    using process_order_counts [of s ord] c1 by (simp add: Map_get0_bumps items_def)
  have pc: "Map_get0 (pairCounts (process_order st ord)) pk \<le> Map_get0 (pairCounts st) pk + 1"
    for pk
  proof -
    have "distinct (pair_keys (sort items))"
      using d bf by (intro distinct_pair_keys) (simp_all add: list_all_iff)
    then have "count_list (pair_keys (sort items)) pk \<le> 1"
      by (simp add: count_list_distinct)
    then show ?thesis
      using process_order_counts [of st ord] by (simp add: Map_get0_bumps items_def)
  qed
  have whole: "Map_get0 (itemCounts (count_pairs parse fromIso toIso (orders @ [ord]))) k
          = Map_get0 (itemCounts (count_pairs parse fromIso toIso orders)) k + 1"
    if "isOrderEligible parse ord fromIso toIso"
    using that ic by (simp add: count_pairs_def eligible_orders_def)
  show "length (filter (\<lambda>it. item_key it = k) (extractItemsForOrder ord)) = 1
     \<and> Map_get0 (itemCounts (process_order st ord)) k = Map_get0 (itemCounts st) k + 1
     \<and> (\<forall>pk. Map_get0 (pairCounts (process_order st ord)) pk \<le> Map_get0 (pairCounts st) pk + 1)
     \<and> (isOrderEligible parse ord fromIso toIso \<longrightarrow>
          Map_get0 (itemCounts (count_pairs parse fromIso toIso (orders @ [ord]))) k
          = Map_get0 (itemCounts (count_pairs parse fromIso toIso orders)) k + 1)"
    using len ic pc whole by blast
qed

theorem presence_based_counting_witness:
  "line_of 11 ''Tea'' \<in> set (o_line_items triple_order)
   \<and> resolved_key (line_of 11 ''Tea'') = Some ''11::0''
   \<and> length (filter (\<lambda>li. resolved_key li = Some ''11::0'') (o_line_items triple_order)) = 3
   \<and> isOrderEligible parse_demo triple_order None None
   \<and> Map_get0 (itemCounts (process_order empty_state triple_order)) ''11::0'' = 1
   \<and> Map_get0 (itemCounts (count_pairs parse_demo None None ([] @ [triple_order]))) ''11::0'' = 1
   \<and> Map_get0 (pairCounts (process_order empty_state triple_order)) ''11::0||12::0'' \<le> 1"
proof -
  have m: "line_of 11 ''Tea'' \<in> set (o_line_items triple_order)"
    by (simp add: triple_order_def order_of_def order0_def)
  have r: "resolved_key (line_of 11 ''Tea'') = Some ''11::0''"
    by code_simp
  have n: "length (filter (\<lambda>li. resolved_key li = Some ''11::0'') (o_line_items triple_order)) = 3"
    by code_simp
  have e: "isOrderEligible parse_demo triple_order None None"
    by code_simp
  have z: "Map_get0 (itemCounts empty_state) ''11::0'' = 0"
    "Map_get0 (pairCounts empty_state) ''11::0||12::0'' = 0"
    "Map_get0 (itemCounts (count_pairs parse_demo None None [])) ''11::0'' = 0"
    by (simp_all add: empty_state_def Map_get0_def count_pairs_def eligible_orders_def)
  note T = presence_based_counting [where li = "line_of 11 ''Tea''" and ord = triple_order
        and k = "''11::0''" and st = empty_state and parse = parse_demo and fromIso = None
        and toIso = None and orders = "[]"]
  have p: "Map_get0 (pairCounts (process_order empty_state triple_order)) ''11::0||12::0''
           \<le> Map_get0 (pairCounts empty_state) ''11::0||12::0'' + 1"
    using T m r by blast
  show ?thesis
    using m r n e z T p by simp
qed

subsection \<open>Display names as identities\<close>

lemma str_includes_iff: "str_includes s k \<longleftrightarrow> (\<exists>pre post. s = pre @ k @ post)"
proof (induction s)
  case Nil
  then show ?case by auto
next
  case (Cons c cs)
  show ?case
  proof
    assume "str_includes (c # cs) k"
    then consider "prefix k (c # cs)" | "str_includes cs k" by auto
    then show "\<exists>pre post. c # cs = pre @ k @ post"
    proof cases
      case 1
      then obtain post where "c # cs = k @ post" by (auto simp: prefix_def)
      then have "c # cs = [] @ k @ post" by simp
      then show ?thesis by blast
    next
      case 2
      then obtain pre post where "cs = pre @ k @ post" using Cons.IH by blast
      then have "c # cs = (c # pre) @ k @ post" by simp
      then show ?thesis by blast
    qed
  next
    assume "\<exists>pre post. c # cs = pre @ k @ post"
    then obtain pre post where e: "c # cs = pre @ k @ post" by blast
    show "str_includes (c # cs) k"
    proof (cases pre)
      case Nil
      then have "prefix k (c # cs)" using e by (simp add: prefix_def)
      then show ?thesis by simp
    next
      case (Cons p pre')
      then have "cs = pre' @ k @ post" using e by simp
      then have "str_includes cs k" using Cons.IH by blast
      then show ?thesis by simp
    qed
  qed
qed

lemma words_acc_substring:
  "w \<in> set (words_acc acc s) \<Longrightarrow> \<exists>pre post. rev acc @ s = pre @ w @ post"
proof (induction s arbitrary: acc)
  case Nil
  then have "w = rev acc" by (auto split: if_splits)
  then have "rev acc @ [] = [] @ w @ []" by simp
  then show ?case by blast
next
  case (Cons c cs)
  show ?case
  proof (cases "is_space c")
    case False
    then have "w \<in> set (words_acc (c # acc) cs)" using Cons.prems by simp
    then obtain pre post where "rev (c # acc) @ cs = pre @ w @ post" using Cons.IH by blast
    then have "rev acc @ c # cs = pre @ w @ post" by simp
    then show ?thesis by blast
  next
    case True
    then consider "w = rev acc" | "w \<in> set (words_acc [] cs)"
      using Cons.prems by (auto split: if_splits)
    then show ?thesis
    proof cases
      case 1
      then have "rev acc @ c # cs = [] @ w @ (c # cs)" by simp
      then show ?thesis by blast
    next
      case 2
      then obtain pre post where "rev [] @ cs = pre @ w @ post" using Cons.IH by blast
      then have "rev acc @ c # cs = (rev acc @ c # pre) @ w @ post" by simp
      then show ?thesis by blast
    qed
  qed
qed

lemma words_acc_nonempty: "w \<in> set (words_acc acc s) \<Longrightarrow> w \<noteq> []"
  by (induction s arbitrary: acc) (auto split: if_splits)

lemma prefix_before_char:
  "c \<notin> set G \<Longrightarrow> prefix G (w @ c # r) \<Longrightarrow> prefix G w"
proof (induction G arbitrary: w)
  case Nil
  then show ?case by simp
next
  case (Cons g G)
  show ?case
  proof (cases w)
    case Nil
    then show ?thesis using Cons.prems by simp
  next
    case (Cons x w')
    then show ?thesis using Cons.prems Cons.IH [of w'] by simp
  qed
qed

lemma toLowerCase_append: "toLowerCase (a @ b) = toLowerCase a @ toLowerCase b"
  by (simp add: toLowerCase_def)

lemma lower_Gummies: "toLowerCase (toLowerCase ''Gummies('') = ''gummi'' @ ''es(''"
  by (simp add: toLowerCase_def lower_char_def upper_letters_def lower_letters_def)

lemma gummies_prefix_includes:
  assumes "name = pre @ ''Gummies('' @ post"
  shows "str_includes (toLowerCase (toLowerCase name)) ''gummi''"
proof -
  have "toLowerCase (toLowerCase name)
        = toLowerCase (toLowerCase pre) @ ''gummi''
          @ (''es('' @ toLowerCase (toLowerCase post))"
    unfolding assms toLowerCase_append lower_Gummies by simp
  then show ?thesis unfolding str_includes_iff by blast
qed

lemma short_prefix_word:
  assumes ws: "ws \<noteq> []" and p: "prefix ''Gummies('' (join '' '' (take 2 ws))"
  shows "prefix ''Gummies('' (hd ws)"
proof (cases ws)
  case Nil
  with ws show ?thesis by simp
next
  case (Cons w rest)
  show ?thesis
  proof (cases rest)
    case Nil
    with Cons p show ?thesis by simp
  next
    case (Cons w1 rest')
    with \<open>ws = w # rest\<close> have "join '' '' (take 2 ws) = w @ CHR '' '' # w1"
      by (simp add: numeral_2_eq_2)
    with p have "prefix ''Gummies('' (w @ CHR '' '' # w1)" by simp
    then have "prefix ''Gummies('' w" by (rule prefix_before_char [rotated]) simp
    with \<open>ws = w # rest\<close> show ?thesis by simp
  qed
qed

lemma plain_name_not_gum:
  assumes "np_product (normalizeProductName n) \<noteq> ''Gummies''"
  shows "\<not> prefix ''Gummies('' (np_product (normalizeProductName n))"
proof (cases "n = []")
  case True
  then show ?thesis by (simp add: normalizeProductName_def)
next
  case False
  define name where "name = trim n"
  have ng: "\<not> str_includes (toLowerCase (toLowerCase name)) ''gummi''"
    using assms False by (auto simp: normalizeProductName_def Let_def name_def)
  define short where "short = join '' '' (take 2 (split_words name))"
  have p: "np_product (normalizeProductName n) = (if short \<noteq> [] then short else name)"
    using False ng by (simp add: normalizeProductName_def Let_def name_def short_def)
  show ?thesis
  proof
    assume pre: "prefix ''Gummies('' (np_product (normalizeProductName n))"
    have "\<exists>a b. name = a @ ''Gummies('' @ b"
    proof (cases "short = []")
      case True
      then have "prefix ''Gummies('' name" using pre p by simp
      then obtain b where "name = [] @ ''Gummies('' @ b" by (auto simp: prefix_def)
      then show ?thesis by blast
    next
      case False
      then have ws: "split_words name \<noteq> []" by (auto simp: short_def)
      have "prefix ''Gummies('' (join '' '' (take 2 (split_words name)))"
        using pre p False by (simp add: short_def)
      from short_prefix_word [OF ws this]
      obtain us where w: "hd (split_words name) = ''Gummies('' @ us" by (auto simp: prefix_def)
      have "hd (split_words name) \<in> set (words_acc [] name)"
        using ws by (simp add: split_words_def)
      then obtain a b where "rev [] @ name = a @ hd (split_words name) @ b"
        using words_acc_substring by blast
      then have "name = a @ ''Gummies('' @ (us @ b)" using w by simp
      then show ?thesis by blast
    qed
    then obtain a b where "name = a @ ''Gummies('' @ b" by blast
    from gummies_prefix_includes [OF this] ng show False by simp
  qed
qed

lemma displayName_plain: "displayName (plain_item li) = line_display li"
  by (simp add: plain_item_def line_display_def Let_def)

lemma plain_not_gum: "line_display li \<noteq> ''Gummies'' \<Longrightarrow> \<not> is_gum (plain_item li)"
  unfolding is_gum_def displayName_plain line_display_def by (rule plain_name_not_gum)

lemma exploded_gum: "is_gum (exploded_item fv)" "is_gum unspecified_item"
  by (simp_all add: is_gum_def exploded_item_def unspecified_item_def)

lemma collect_step_plain:
  "filter (\<lambda>it. \<not> is_gum it) (nonGummies (collect_step ex st li))
   = filter (\<lambda>it. \<not> is_gum it) (nonGummies st)
     @ map plain_item (filter (\<lambda>l. line_display l \<noteq> ''Gummies'') [li])"
proof (cases "line_display li = ''Gummies''")
  case True
  have "filter (\<lambda>it. \<not> is_gum it) (map exploded_item fs) = []" for fs
    by (simp add: filter_empty_conv exploded_gum)
  then show ?thesis
    using True by (simp add: collect_step_def Let_def line_display_def exploded_gum)
next
  case False
  then show ?thesis
    using plain_not_gum [OF False] by (simp add: collect_step_def Let_def line_display_def)
qed

lemma collect_fold_plain:
  "filter (\<lambda>it. \<not> is_gum it) (nonGummies (foldl (collect_step ex) st ls))
   = filter (\<lambda>it. \<not> is_gum it) (nonGummies st)
     @ map plain_item (filter (\<lambda>l. line_display l \<noteq> ''Gummies'') ls)"
proof (induction ls arbitrary: st)
  case Nil
  then show ?case by simp
next
  case (Cons l ls)
  show ?case
    unfolding foldl_Cons Cons.IH collect_step_plain by simp
qed

lemma find_filter: "(\<And>x. P x \<Longrightarrow> Q x) \<Longrightarrow> List.find P (filter Q xs) = List.find P xs"
  by (induction xs) auto

lemma find_map: "List.find P (map f xs) = map_option f (List.find (\<lambda>x. P (f x)) xs)"
  by (induction xs) auto

lemma find_append_absent:
  "(\<And>y. y \<in> set ys \<Longrightarrow> \<not> P y) \<Longrightarrow> List.find P (xs @ ys) = List.find P xs"
proof (induction xs)
  case Nil
  then show ?case by (simp add: find_None_iff)
next
  case (Cons x xs)
  then show ?case by simp
qed

lemma find_plain:
  assumes d: "d \<noteq> ''Gummies''" and nd: "\<not> prefix ''Gummies('' d"
  shows "List.find (\<lambda>it. displayName it = d) (nonGummies (collect_items ex ord))
         = map_option plain_item (List.find (\<lambda>l. line_display l = d) (o_line_items ord))"
proof -
  let ?ng = "nonGummies (collect_items ex ord)"
  have "List.find (\<lambda>it. displayName it = d) ?ng
        = List.find (\<lambda>it. displayName it = d) (filter (\<lambda>it. \<not> is_gum it) ?ng)"
    using nd by (intro find_filter [symmetric]) (auto simp: is_gum_def)
  also have "filter (\<lambda>it. \<not> is_gum it) ?ng
        = map plain_item (filter (\<lambda>l. line_display l \<noteq> ''Gummies'') (o_line_items ord))"
    unfolding collect_items_def collect_fold_plain by simp
  also have "List.find (\<lambda>it. displayName it = d) \<dots>
        = map_option plain_item
            (List.find (\<lambda>l. line_display l = d)
               (filter (\<lambda>l. line_display l \<noteq> ''Gummies'') (o_line_items ord)))"
    by (simp add: find_map displayName_plain)
  also have "List.find (\<lambda>l. line_display l = d)
               (filter (\<lambda>l. line_display l \<noteq> ''Gummies'') (o_line_items ord))
        = List.find (\<lambda>l. line_display l = d) (o_line_items ord)"
    using d by (intro find_filter) auto
  finally show ?thesis .
qed

lemma extract_filter_name:
  assumes d: "d \<noteq> ''Gummies''" and nd: "\<not> prefix ''Gummies('' d"
  shows "filter (\<lambda>it. displayName it = d) (extractLineItems ex ord)
         = (case List.find (\<lambda>l. line_display l = d) (o_line_items ord) of
              None \<Rightarrow> [] | Some l \<Rightarrow> [plain_item l])"
proof (cases ex)
  case True
  define S where "S = foldl (seen2_step displayName) [] (nonGummies (collect_items ex ord))"
  have st: "\<And>S it. seen2_step displayName S it =
      (if \<not> Map_has S (displayName it) then Map_set S (displayName it) it else S)"
    by (simp add: seen2_step_def)
  have k: "keyed displayName S"
    and m: "map_of S d = List.find (\<lambda>it. displayName it = d) (nonGummies (collect_items ex ord))"
    using first_wins_fold [OF st keyed_Nil, of "nonGummies (collect_items ex ord)" d]
    by (simp_all add: S_def)
  have e: "extractLineItems ex ord = map snd S"
    using True by (simp add: extractLineItems_def extract_by_def Let_def S_def)
  show ?thesis
    unfolding e keyed_lookup [OF k] m find_plain [OF d nd]
    by (simp split: option.splits)
next
  case False
  define extra where "extra = (if length (gummiesFlavorsSet (collect_items ex ord)) > 0
               then [consolidated_item (gummiesFlavorsSet (collect_items ex ord))]
               else if sawAnyGummiesLine (collect_items ex ord)
                    then [consolidated_item [''Unspecified'']]
               else [])"
  define S where "S = foldl (seen_step displayName ''Gummies'') []
                        (nonGummies (collect_items ex ord) @ extra)"
  have fl: "\<And>it f. displayName (it\<lparr>flavors := f\<rparr>) = displayName it" by simp
  have k: "keyed displayName S"
    and m: "map_of S d = List.find (\<lambda>it. displayName it = d)
                            (nonGummies (collect_items ex ord) @ extra)"
    using seen_fold [OF fl keyed_Nil, of "''Gummies''" "nonGummies (collect_items ex ord) @ extra" d] d
    by (simp_all add: S_def)
  have x: "List.find (\<lambda>it. displayName it = d) (nonGummies (collect_items ex ord) @ extra)
           = List.find (\<lambda>it. displayName it = d) (nonGummies (collect_items ex ord))"
    using d by (intro find_append_absent) (auto simp: extra_def consolidated_item_def split: if_splits)
  have e: "extractLineItems ex ord = map snd S"
    using False by (simp add: extractLineItems_def extract_by_def Let_def S_def extra_def)
  show ?thesis
    unfolding e keyed_lookup [OF k] m x find_plain [OF d nd]
    by (simp split: option.splits)
qed

lemma length_filter_key_le:
  "distinct (map f xs) \<Longrightarrow> length (filter (\<lambda>x. f x = k) xs) \<le> 1"
proof (cases "k \<in> f ` set xs")
  case True
  assume "distinct (map f xs)"
  then show ?thesis using True length_filter_key [of f xs k] by simp
next
  case False
  then have "filter (\<lambda>x. f x = k) xs = []" by (auto simp: filter_empty_conv)
  then show ?thesis by simp
qed

lemma order_combs_subseq:
  "comb \<in> set (order_combs cmp ex ord) \<Longrightarrow> subseq comb (sorted_items cmp ex ord)"
  by (auto simp: order_combs_def itemsets_upto_k_subseqs set_k_subseqs split: if_splits)

lemma comb_names_distinct:
  assumes "comb \<in> set (order_combs cmp ex ord)"
  shows "distinct (map displayName comb)"
proof -
  have "subseq (map displayName comb) (map displayName (sorted_items cmp ex ord))"
    using order_combs_subseq [OF assms] by (rule subseq_map)
  then show ?thesis
    using distinct_sorted_names [of cmp ex ord] subseqs_distinctD
    by (metis in_set_subseqs)
qed

lemma join_nonempty: "ws \<noteq> [] \<Longrightarrow> hd ws \<noteq> [] \<Longrightarrow> join sep ws \<noteq> []"
  by (induction sep ws rule: join.induct) auto

lemma display_two_words:
  assumes "line_display li \<noteq> ''Gummies''" and "first_two_words li \<noteq> []"
  shows "line_display li = join '' '' (first_two_words li)"
proof -
  define n where "n = trim (String_or_empty (li_name li))"
  have w: "take 2 (split_words (trim n)) \<noteq> []"
    using assms(2) by (simp add: first_two_words_def n_def)
  have ne: "n \<noteq> []"
  proof
    assume "n = []"
    then have "split_words (trim n) = []" by (simp add: trim_def split_words_def)
    with w show False by simp
  qed
  have ng: "\<not> str_includes (toLowerCase (toLowerCase (trim n))) ''gummi''"
    using assms(1) ne by (auto simp: line_display_def n_def [symmetric] normalizeProductName_def Let_def)
  have "hd (take 2 (split_words (trim n))) \<in> set (words_acc [] (trim n))"
    using w by (cases "split_words (trim n)") (auto simp: split_words_def)
  then have "hd (take 2 (split_words (trim n))) \<noteq> []" by (rule words_acc_nonempty)
  then have "join '' '' (take 2 (split_words (trim n))) \<noteq> []"
    using w by (intro join_nonempty)
  then show ?thesis
    using ne ng
    by (simp add: line_display_def n_def [symmetric] normalizeProductName_def Let_def
        first_two_words_def)
qed

text \<open>
  C10. In the first variant the items of an order have distinct display names. Two
  non-gummies lines with the same first two words have the same display name; for a
  non-gummies line of the order, the only item with its display name is the one made of
  the first line with that display name, whatever the product and variation ids of the
  later ones; and no itemset of the order holds that display name twice.
\<close>

theorem display_name_collapse:
  "distinct (map displayName (extractLineItems ex ord))
   \<and> displayName (plain_item li) = line_display li
   \<and> (line_display li \<noteq> ''Gummies'' \<and> line_display li' \<noteq> ''Gummies''
        \<and> first_two_words li \<noteq> [] \<and> first_two_words li = first_two_words li' \<longrightarrow>
       line_display li = line_display li')
   \<and> (li \<in> set (o_line_items ord) \<and> line_display li \<noteq> ''Gummies'' \<longrightarrow>
       (\<exists>first. List.find (\<lambda>l. line_display l = line_display li) (o_line_items ord) = Some first
          \<and> filter (\<lambda>it. displayName it = line_display li) (extractLineItems ex ord)
              = [plain_item first])
       \<and> (\<forall>comb \<in> set (order_combs cmp ex ord).
            length (filter (\<lambda>it. displayName it = line_display li) comb) \<le> 1))"
proof (intro conjI impI)
  show "distinct (map displayName (extractLineItems ex ord))" by (rule distinct_displayNames)
  show "displayName (plain_item li) = line_display li" by (rule displayName_plain)
next
  assume "line_display li \<noteq> ''Gummies'' \<and> line_display li' \<noteq> ''Gummies''
        \<and> first_two_words li \<noteq> [] \<and> first_two_words li = first_two_words li'"
  then show "line_display li = line_display li'"
    using display_two_words [of li] display_two_words [of li'] by metis
next
  assume a: "li \<in> set (o_line_items ord) \<and> line_display li \<noteq> ''Gummies''"
  then have nd: "\<not> prefix ''Gummies('' (line_display li)"
    unfolding line_display_def by (intro plain_name_not_gum) simp
  from a have "List.find (\<lambda>l. line_display l = line_display li) (o_line_items ord) \<noteq> None"
    by (auto simp: find_None_iff)
  then obtain first where
    f: "List.find (\<lambda>l. line_display l = line_display li) (o_line_items ord) = Some first"
    by auto
  have "filter (\<lambda>it. displayName it = line_display li) (extractLineItems ex ord)
              = [plain_item first]"
    using extract_filter_name [of "line_display li" ex ord] a nd f by simp
  with f show "\<exists>first. List.find (\<lambda>l. line_display l = line_display li) (o_line_items ord)
          = Some first
          \<and> filter (\<lambda>it. displayName it = line_display li) (extractLineItems ex ord)
              = [plain_item first]"
    by blast
  show "\<forall>comb \<in> set (order_combs cmp ex ord).
            length (filter (\<lambda>it. displayName it = line_display li) comb) \<le> 1"
  proof
    fix comb assume "comb \<in> set (order_combs cmp ex ord)"
    then have "distinct (map displayName comb)" by (rule comb_names_distinct)
    then show "length (filter (\<lambda>it. displayName it = line_display li) comb) \<le> 1"
      by (rule length_filter_key_le)
  qed
qed

theorem display_name_collapse_witness:
  "line_of 12 ''Green Tea Small'' \<in> set (o_line_items tea_order)
   \<and> line_display (line_of 12 ''Green Tea Small'') = ''Green Tea''
   \<and> line_display (line_of 11 ''Green Tea Large'') = ''Green Tea''
   \<and> first_two_words (line_of 12 ''Green Tea Small'') = [''Green'', ''Tea'']
   \<and> first_two_words (line_of 11 ''Green Tea Large'') = [''Green'', ''Tea'']
   \<and> List.find (\<lambda>l. line_display l = ''Green Tea'') (o_line_items tea_order)
       = Some (line_of 11 ''Green Tea Large'')
   \<and> filter (\<lambda>it. displayName it = ''Green Tea'') (extractLineItems False tea_order)
       = [plain_item (line_of 11 ''Green Tea Large'')]
   \<and> map productId (extractLineItems False tea_order) = [''11'', ''13'']
   \<and> map bundleKey_of (order_combs code_compare False tea_order)
       = [''Coffee'', ''Green Tea'', ''Coffee | Green Tea'']"
proof -
  have m: "line_of 12 ''Green Tea Small'' \<in> set (o_line_items tea_order)"
    by (simp add: tea_order_def order_of_def order0_def)
  have d: "line_display (line_of 12 ''Green Tea Small'') = ''Green Tea''"
    "line_display (line_of 11 ''Green Tea Large'') = ''Green Tea''"
    by code_simp+
  have w: "first_two_words (line_of 12 ''Green Tea Small'') = [''Green'', ''Tea'']"
    "first_two_words (line_of 11 ''Green Tea Large'') = [''Green'', ''Tea'']"
    by code_simp+
  have f: "List.find (\<lambda>l. line_display l = ''Green Tea'') (o_line_items tea_order)
       = Some (line_of 11 ''Green Tea Large'')"
    by code_simp
  have p: "map productId (extractLineItems False tea_order) = [''11'', ''13'']"
    by code_simp
  have c: "map bundleKey_of (order_combs code_compare False tea_order)
       = [''Coffee'', ''Green Tea'', ''Coffee | Green Tea'']"
    by code_simp
  show ?thesis
    using m d w f p c
      display_name_collapse [where li = "line_of 12 ''Green Tea Small''" and ord = tea_order
        and li' = "line_of 11 ''Green Tea Large''" and ex = False and cmp = code_compare]
    by simp
qed

end
